theory Spec2Isabelle
  imports Complex_Main
begin

section \<open>JavaScript values and the built-ins the sanitizer calls\<close>

text \<open>
  The sanitizer of \<^verbatim>\<open>src/params-sanitizer.ts\<close> reads request values typed
  \<^verbatim>\<open>unknown\<close>: whatever the transport parsed (strings from a query string, any JSON
  value from a body), and what an earlier call of \<open>values\<close> wrote into them. They are
  modelled as trees. A number is \<open>NaN\<close>, an infinity or a finite value given by its
  rational (negative zero is identified with zero: the code compares numbers only
  through \<^verbatim>\<open>isNaN\<close> and \<^verbatim>\<open>includes\<close>, which do not tell them apart).

  An object is the list of its own properties in the order \<^verbatim>\<open>Object.keys\<close>
  enumerates them: the keys that are array indices first, ascending, then the other keys
  as they were created. An array \<open>Arr n kvs\<close> is such a list with the length \<open>n\<close>
  (the elements are the properties under the keys \<^verbatim>\<open>"0"\<close>, \<^verbatim>\<open>"1"\<close>, ...; an index
  without a property is a hole), and \<open>DateObj t kvs\<close> is a \<^verbatim>\<open>Date\<close> with time value
  \<open>t\<close>. \<open>Intrinsic h\<close> is a built-in object of the realm, a function or a prototype,
  named by its path (\<^verbatim>\<open>Object\<close>, \<^verbatim>\<open>Object.prototype\<close>): the code meets one when it
  reads a property such as \<^verbatim>\<open>constructor\<close> that the request does not hold but the
  prototype chain does.
\<close>

datatype jsnum = NaN | PosInfinity | NegInfinity | Finite rat

datatype jsval =
    Undefined
  | Null
  | Bool bool
  | Num jsnum
  | Str string
  | Arr nat "(string \<times> jsval) list"
  | Obj "(string \<times> jsval) list"
  | DateObj jsnum "(string \<times> jsval) list"
  | Intrinsic string

text \<open>The prototype chain of a value depends on what sort of value it is only.\<close>

datatype kind =
  KUndefined | KNull | KBoolean | KNumber | KString | KArray | KObject | KDate | KIntrinsic string

fun kind_of :: "jsval \<Rightarrow> kind" where
  "kind_of Undefined = KUndefined"
| "kind_of Null = KNull"
| "kind_of (Bool b) = KBoolean"
| "kind_of (Num n) = KNumber"
| "kind_of (Str s) = KString"
| "kind_of (Arr n kvs) = KArray"
| "kind_of (Obj kvs) = KObject"
| "kind_of (DateObj t kvs) = KDate"
| "kind_of (Intrinsic h) = KIntrinsic h"

text \<open>
  An exception is a value: \<open>SyntaxError\<close> is what \<^verbatim>\<open>JSON.parse\<close> throws on text that
  is not JSON, \<open>TypeError\<close> what a call of a missing method (\<^verbatim>\<open>.split\<close> on a
  non-string), a property access on \<^verbatim>\<open>null\<close>/\<^verbatim>\<open>undefined\<close>, a write onto a
  primitive or a conversion of an object that cannot be converted throws, \<open>RangeError\<close>
  what an array throws when its length is set to a value that is no length, and
  \<open>OtherError\<close> any other exception of a built-in.

  \<open>Unmodelled\<close> is not an exception. It marks the three steps after which the source
  text no longer fixes what the program does, because the code has changed or called a
  built-in object: a write onto a built-in object (it changes the realm for every later
  operation), a write that replaces the prototype of an object, and a call of a
  \<^verbatim>\<open>split\<close> method that a value other than a string supplies. Each needs a property
  name found on the prototype chain (\<^verbatim>\<open>__proto__\<close>, \<^verbatim>\<open>constructor\<close>, ...).
\<close>

datatype error = SyntaxError | TypeError | RangeError | OtherError | Unmodelled

text \<open>
  The language built-ins are parameters of the model, so every theorem holds for
  whatever they compute: \<open>JSON_parse v\<close> is \<^verbatim>\<open>JSON.parse(v)\<close>, \<open>ToNumber v\<close> is
  \<^verbatim>\<open>+v\<close> and \<open>Date_time v\<close> is \<^verbatim>\<open>new Date(v).getTime()\<close>, each with the
  exception it throws, if any (the conversion of an object calls its \<^verbatim>\<open>toString\<close>
  and \<^verbatim>\<open>valueOf\<close>, and throws when neither can be called). \<open>inherited kd k\<close> is what
  the prototype chain of a value of kind \<open>kd\<close> holds under the key \<open>k\<close>,
  \<^verbatim>\<open>undefined\<close> when nothing; for a built-in object this covers its own properties
  too.
\<close>

record builtins =
  JSON_parse :: "jsval \<Rightarrow> error + jsval"
  ToNumber :: "jsval \<Rightarrow> error + jsnum"
  Date_time :: "jsval \<Rightarrow> error + jsnum"
  inherited :: "kind \<Rightarrow> string \<Rightarrow> jsval"

definition isNaN :: "jsnum \<Rightarrow> bool" where
  "isNaN n = (n = NaN)"

definition nullish :: "jsval \<Rightarrow> bool" where
  \<comment> \<open>\<^verbatim>\<open>v == null\<close>\<close>
  "nullish v = (v = Undefined \<or> v = Null)"

fun truthy :: "jsval \<Rightarrow> bool" where
  "truthy Undefined = False"
| "truthy Null = False"
| "truthy (Bool b) = b"
| "truthy (Num n) = (n \<noteq> NaN \<and> n \<noteq> Finite 0)"
| "truthy (Str s) = (s \<noteq> [])"
| "truthy _ = True"

definition or_empty :: "jsval \<Rightarrow> jsval" where
  \<comment> \<open>\<^verbatim>\<open>v || {}\<close>\<close>
  "or_empty v = (if truthy v then v else Obj [])"

fun is_object :: "jsval \<Rightarrow> bool" where
  "is_object (Arr n kvs) = True"
| "is_object (Obj kvs) = True"
| "is_object (DateObj t kvs) = True"
| "is_object (Intrinsic h) = True"
| "is_object _ = False"

subsection \<open>Property keys\<close>

fun nat_to_string :: "nat \<Rightarrow> string" where
  "nat_to_string n =
     (if n < 10 then [''0123456789'' ! n]
      else nat_to_string (n div 10) @ [''0123456789'' ! (n mod 10)])"

definition index_keys :: "nat \<Rightarrow> string list" where
  "index_keys n = map nat_to_string [0..<n]"

definition index_of_key :: "string \<Rightarrow> nat \<Rightarrow> nat option" where
  "index_of_key k n = find (\<lambda>i. nat_to_string i = k) [0..<n]"

definition digit_of :: "char \<Rightarrow> nat option" where
  "digit_of c =
     map_of [(CHR ''0'', 0), (CHR ''1'', 1), (CHR ''2'', 2), (CHR ''3'', 3), (CHR ''4'', 4),
             (CHR ''5'', 5), (CHR ''6'', 6), (CHR ''7'', 7), (CHR ''8'', 8), (CHR ''9'', 9)] c"

definition index_value :: "string \<Rightarrow> nat option" where
  \<comment> \<open>the array index that a key denotes: a decimal numeral without leading zero, below \<open>2\<^sup>3\<^sup>2 - 1\<close>\<close>
  "index_value k =
     (if k \<noteq> [] \<and> list_all (\<lambda>c. digit_of c \<noteq> None) k \<and> (k = ''0'' \<or> hd k \<noteq> CHR ''0'')
      then (let n = foldl (\<lambda>a c. 10 * a + the (digit_of c)) 0 k
            in if n < 4294967295 then Some n else None)
      else None)"

fun Object_keys :: "jsval \<Rightarrow> string list" where
  "Object_keys (Obj kvs) = map fst kvs"
| "Object_keys (Arr n kvs) = map fst kvs"
| "Object_keys (DateObj t kvs) = map fst kvs"
| "Object_keys (Str s) = index_keys (length s)"
| "Object_keys _ = []"

subsection \<open>Reading a property\<close>

text \<open>
  \<open>own_prop v k\<close> is the own property \<open>k\<close> of \<open>v\<close>, if \<open>v\<close> has one. \<open>prop_of v k\<close>
  is \<^verbatim>\<open>v[k]\<close> for a key that \<^verbatim>\<open>Object.keys(v)\<close> gave, as in \<open>check\<close>.
  \<open>chain_prop env v k\<close> is \<^verbatim>\<open>v[k]\<close> for any key: the own property, or else what the
  prototype chain holds; \<open>get_prop\<close> adds the \<^verbatim>\<open>TypeError\<close> of a read on
  \<^verbatim>\<open>null\<close> or \<^verbatim>\<open>undefined\<close>.
\<close>

fun own_prop :: "jsval \<Rightarrow> string \<Rightarrow> jsval option" where
  "own_prop (Obj kvs) k = map_of kvs k"
| "own_prop (Arr n kvs) k = (if k = ''length'' then Some (Num (Finite (of_nat n))) else map_of kvs k)"
| "own_prop (DateObj t kvs) k = map_of kvs k"
| "own_prop (Str s) k =
     (case index_of_key k (length s) of
        Some i \<Rightarrow> Some (Str [s ! i])
      | None \<Rightarrow> if k = ''length'' then Some (Num (Finite (of_nat (length s)))) else None)"
| "own_prop _ k = None"

definition prop_of :: "jsval \<Rightarrow> string \<Rightarrow> jsval" where
  "prop_of v k = (case own_prop v k of None \<Rightarrow> Undefined | Some x \<Rightarrow> x)"

definition chain_prop :: "builtins \<Rightarrow> jsval \<Rightarrow> string \<Rightarrow> jsval" where
  "chain_prop env v k = (case own_prop v k of None \<Rightarrow> inherited env (kind_of v) k | Some x \<Rightarrow> x)"

definition get_prop :: "builtins \<Rightarrow> jsval \<Rightarrow> string \<Rightarrow> error + jsval" where
  "get_prop env v k = (if nullish v then Inl TypeError else Inr (chain_prop env v k))"

subsection \<open>Writing a property\<close>

text \<open>
  \<open>assign k v kvs\<close> is the property list once \<open>k\<close> holds \<open>v\<close>: an existing property
  keeps its place, a new one that is an array index goes among the indices, any other
  new one to the end.
\<close>

fun replace_value :: "string \<Rightarrow> jsval \<Rightarrow> (string \<times> jsval) list \<Rightarrow> (string \<times> jsval) list" where
  "replace_value k v [] = []"
| "replace_value k v (p # ps) = (if fst p = k then (k, v) # ps else p # replace_value k v ps)"

fun insert_index :: "nat \<Rightarrow> string \<Rightarrow> jsval \<Rightarrow> (string \<times> jsval) list \<Rightarrow> (string \<times> jsval) list" where
  "insert_index i k v [] = [(k, v)]"
| "insert_index i k v (p # ps) =
     (case index_value (fst p) of
        None \<Rightarrow> (k, v) # p # ps
      | Some j \<Rightarrow> if j < i then p # insert_index i k v ps else (k, v) # p # ps)"

definition assign :: "string \<Rightarrow> jsval \<Rightarrow> (string \<times> jsval) list \<Rightarrow> (string \<times> jsval) list" where
  "assign k v kvs =
     (if k \<in> set (map fst kvs) then replace_value k v kvs
      else (case index_value k of
              None \<Rightarrow> kvs @ [(k, v)]
            | Some i \<Rightarrow> insert_index i k v kvs))"

text \<open>
  A write to an object of kind \<open>kd\<close> with the own properties \<open>kvs\<close>. The key
  \<^verbatim>\<open>__proto__\<close>, unless the object owns it (as an object that \<^verbatim>\<open>JSON.parse\<close> built
  can), reaches the setter of \<^verbatim>\<open>Object.prototype\<close>, which creates no property: it
  ignores a primitive and makes an object or \<^verbatim>\<open>null\<close> the prototype.
\<close>

definition set_own ::
  "builtins \<Rightarrow> kind \<Rightarrow> (string \<times> jsval) list \<Rightarrow> string \<Rightarrow> jsval
     \<Rightarrow> error + (string \<times> jsval) list" where
  "set_own env kd kvs k x =
     (if k \<in> set (map fst kvs) \<or> k \<noteq> ''__proto__'' then Inr (assign k x kvs)
      else if (is_object x \<or> x = Null) \<and> x \<noteq> inherited env kd ''__proto__'' then Inl Unmodelled
      else Inr kvs)"

definition array_length :: "jsnum \<Rightarrow> nat option" where
  \<comment> \<open>the length that a number denotes: an integer from 0 to \<open>2\<^sup>3\<^sup>2 - 1\<close>\<close>
  "array_length m =
     (case m of
        Finite q \<Rightarrow> if 0 \<le> q \<and> q < 4294967296 \<and> of_int \<lfloor>q\<rfloor> = q then Some (nat \<lfloor>q\<rfloor>) else None
      | _ \<Rightarrow> None)"

text \<open>
  \<open>set_prop env v k x\<close> is \<^verbatim>\<open>v[k] = x\<close> in strict mode (the file is an ES module),
  with \<open>v\<close> as it is afterwards. A write onto a primitive throws, except under
  \<^verbatim>\<open>__proto__\<close>, where the setter returns without effect. An array grows to hold a
  new index, and \<^verbatim>\<open>length\<close> sets its length, dropping the elements beyond it.
\<close>

fun set_prop :: "builtins \<Rightarrow> jsval \<Rightarrow> string \<Rightarrow> jsval \<Rightarrow> error + jsval" where
  "set_prop env (Obj kvs) k x =
     (case set_own env KObject kvs k x of Inl e \<Rightarrow> Inl e | Inr kvs' \<Rightarrow> Inr (Obj kvs'))"
| "set_prop env (DateObj t kvs) k x =
     (case set_own env KDate kvs k x of Inl e \<Rightarrow> Inl e | Inr kvs' \<Rightarrow> Inr (DateObj t kvs'))"
| "set_prop env (Arr n kvs) k x =
     (if k = ''length'' then
        (case ToNumber env x of
           Inl e \<Rightarrow> Inl e
         | Inr m \<Rightarrow>
             (case array_length m of
                None \<Rightarrow> Inl RangeError
              | Some l \<Rightarrow>
                  Inr (Arr l (filter (\<lambda>p. case index_value (fst p) of None \<Rightarrow> True | Some i \<Rightarrow> i < l)
                                kvs))))
      else
        (case set_own env KArray kvs k x of
           Inl e \<Rightarrow> Inl e
         | Inr kvs' \<Rightarrow>
             Inr (Arr (case index_value k of None \<Rightarrow> n | Some i \<Rightarrow> max n (Suc i)) kvs')))"
| "set_prop env (Intrinsic h) k x = Inl Unmodelled"
| "set_prop env v k x = (if k = ''__proto__'' \<and> \<not> nullish v then Inr v else Inl TypeError)"

subsection \<open>Strings and arrays\<close>

text \<open>
  \<^verbatim>\<open>s.split(sep)\<close> for a string separator: an absent separator gives the whole
  string, the empty separator the characters, any other the pieces between its
  occurrences read from the left.
\<close>

fun split_on :: "string \<Rightarrow> string \<Rightarrow> string \<Rightarrow> string list" where
  "split_on sep acc [] = [rev acc]"
| "split_on sep acc (c # cs) =
     (if sep \<noteq> [] \<and> take (length sep) (c # cs) = sep
      then rev acc # split_on sep [] (drop (length sep - 1) cs)
      else split_on sep (c # acc) cs)"

definition split_str :: "string \<Rightarrow> string option \<Rightarrow> string list" where
  "split_str s divider =
     (case divider of
        None \<Rightarrow> [s]
      | Some sep \<Rightarrow> if sep = [] then map (\<lambda>c. [c]) s else split_on sep [] s)"

text \<open>
  \<^verbatim>\<open>(v as string).split(divider)\<close>: the cast is erased, so \<open>v\<close> is any value. A value
  that is not a string has no \<^verbatim>\<open>split\<close> method to call, unless it owns or inherits a
  built-in one.
\<close>

definition split_of :: "builtins \<Rightarrow> jsval \<Rightarrow> string option \<Rightarrow> error + string list" where
  "split_of env v divider =
     (case v of
        Str s \<Rightarrow> Inr (split_str s divider)
      | _ \<Rightarrow>
          (case get_prop env v ''split'' of
             Inl e \<Rightarrow> Inl e
           | Inr m \<Rightarrow> (case m of Intrinsic f \<Rightarrow> Inl Unmodelled | _ \<Rightarrow> Inl TypeError)))"

definition array_of :: "jsval list \<Rightarrow> jsval" where
  \<comment> \<open>the array with the given elements\<close>
  "array_of xs = Arr (length xs) (zip (index_keys (length xs)) xs)"

text \<open>\<^verbatim>\<open>forEach\<close> with a callback that may throw: the first exception ends the loop.\<close>

primrec forEach :: "('s \<Rightarrow> 'a \<Rightarrow> error + 's) \<Rightarrow> 'a list \<Rightarrow> 's \<Rightarrow> error + 's" where
  "forEach f [] s = Inr s"
| "forEach f (x # xs) s = (case f s x of Inl e \<Rightarrow> Inl e | Inr s' \<Rightarrow> forEach f xs s')"

section \<open>The schema\<close>

datatype ptype = TString | TNumber | TObject | TDate | TBoolean

datatype location = Query | Path | Body

text \<open>
  \<^verbatim>\<open>interface ParamsDefinition\<close>: an optional attribute that is absent is \<open>None\<close>.
  (\<open>ptype\<close>, \<open>default_val\<close> and \<open>in_loc\<close> are the attributes \<^verbatim>\<open>type\<close>,
  \<^verbatim>\<open>default\<close> and \<^verbatim>\<open>in\<close>.)
\<close>

datatype ParamsDefinition = ParamsDefinition
  (name: string)
  (ptype: ptype)
  (isArray: "bool option")
  (elementsDivider: "string option")
  (default_val: "jsval option")
  (required: "bool option")
  (in_loc: location)
  (properties: "ParamsDefinition list option")

record ParamsSanitizerOptions =
  strict :: "bool option"

record ParamsSanitizer =
  definitions :: "ParamsDefinition list"
  options :: ParamsSanitizerOptions

definition with_defaults :: "ParamsDefinition \<Rightarrow> ParamsDefinition" where
  \<comment> \<open>\<^verbatim>\<open>Object.assign({}, defaultParamsValues, d)\<close>: top-level definitions only\<close>
  "with_defaults d =
     ParamsDefinition (name d) (ptype d)
       (Some (case isArray d of None \<Rightarrow> False | Some b \<Rightarrow> b))
       (Some (case elementsDivider d of None \<Rightarrow> '','' | Some s \<Rightarrow> s))
       (Some (case default_val d of None \<Rightarrow> Null | Some v \<Rightarrow> v))
       (Some (case required d of None \<Rightarrow> False | Some b \<Rightarrow> b))
       (in_loc d) (properties d)"

definition new_sanitizer :: "ParamsDefinition list \<Rightarrow> ParamsSanitizerOptions \<Rightarrow> ParamsSanitizer" where
  \<comment> \<open>the constructor\<close>
  "new_sanitizer data opts =
     \<lparr>definitions = map with_defaults data,
      options = \<lparr>strict = Some (case strict opts of None \<Rightarrow> False | Some b \<Rightarrow> b)\<rparr>\<rparr>"

section \<open>Requests and results\<close>

text \<open>
  The request properties the sanitizer touches. \<open>check\<close> reads \<open>query\<close>, \<open>params\<close>
  and \<open>body\<close>; the synthetic request of a nested validation is written at the property
  named by the parent's location, which for \<^verbatim>\<open>'path'\<close> is \<open>path\<close>.
\<close>

record Request =
  query :: jsval
  params :: jsval
  body :: jsval
  path :: jsval

record Entry =
  ewhere :: location
  eparams :: "string list"

record CheckResult =
  status :: bool
  unknown :: "Entry list"
  missing :: "Entry list"
  malformed :: "Entry list"

text \<open>The three mappings of a \<^verbatim>\<open>ValueResult\<close> are objects that \<open>values\<close> creates empty.\<close>

record ValueResult =
  vquery :: jsval
  vpath :: jsval
  vbody :: jsval

section \<open>check\<close>

type_synonym parent = "string \<times> ParamsDefinition list"

text \<open>The three lists while the keys are visited: missing, unknown, malformed.\<close>

type_synonym lists = "Entry list \<times> Entry list \<times> Entry list"

definition locations :: "location list" where
  "locations = [Query, Path, Body]"

fun input_of :: "Request \<Rightarrow> location \<Rightarrow> jsval" where
  "input_of req Query = query req"
| "input_of req Path = params req"
| "input_of req Body = body req"

definition mapping_of :: "Request \<Rightarrow> location \<Rightarrow> jsval" where
  \<comment> \<open>\<^verbatim>\<open>req.query || {}\<close>, \<^verbatim>\<open>req.params || {}\<close>, \<^verbatim>\<open>req.body || {}\<close>\<close>
  "mapping_of req w = or_empty (input_of req w)"

definition scope :: "ParamsSanitizer \<Rightarrow> parent option \<Rightarrow> ParamsDefinition list" where
  "scope this parent = (case parent of None \<Rightarrow> definitions this | Some (n, ds) \<Rightarrow> ds)"

definition path_prefix :: "parent option \<Rightarrow> string" where
  "path_prefix parent = (case parent of None \<Rightarrow> [] | Some (n, ds) \<Rightarrow> n @ ''.'')"

definition required_names :: "ParamsDefinition list \<Rightarrow> location \<Rightarrow> string list" where
  "required_names defs w =
     map name (filter (\<lambda>d. required d = Some True) (filter (\<lambda>d. in_loc d = w) defs))"

definition missing_pass :: "ParamsDefinition list \<Rightarrow> string \<Rightarrow> Request \<Rightarrow> Entry list" where
  "missing_pass defs pth req =
     map (\<lambda>w. \<lparr>ewhere = w,
               eparams = map (\<lambda>p. pth @ p)
                 (filter (\<lambda>r. r \<notin> set (Object_keys (mapping_of req w))) (required_names defs w))\<rparr>)
       locations"

definition empty_entries :: "Entry list" where
  "empty_entries = map (\<lambda>w. \<lparr>ewhere = w, eparams = []\<rparr>) locations"

fun push_param :: "location \<Rightarrow> string \<Rightarrow> Entry list \<Rightarrow> Entry list" where
  \<comment> \<open>\<^verbatim>\<open>es.find(u => u.where === w)?.params.push(n)\<close>\<close>
  "push_param w n [] = []"
| "push_param w n (e # es) =
     (if ewhere e = w then e\<lparr>eparams := eparams e @ [n]\<rparr> # es else e # push_param w n es)"

definition flag_unknown :: "location \<Rightarrow> string \<Rightarrow> lists \<Rightarrow> lists" where
  "flag_unknown w n st = (case st of (mi, un, ma) \<Rightarrow> (mi, push_param w n un, ma))"

definition flag_malformed :: "location \<Rightarrow> string \<Rightarrow> lists \<Rightarrow> lists" where
  "flag_malformed w n st = (case st of (mi, un, ma) \<Rightarrow> (mi, un, push_param w n ma))"

definition already_missing :: "location \<Rightarrow> string \<Rightarrow> lists \<Rightarrow> bool" where
  "already_missing w n st =
     (case st of (mi, un, ma) \<Rightarrow> list_ex (\<lambda>m. ewhere m = w \<and> n \<in> set (eparams m)) mi)"

definition merge_lists :: "CheckResult \<Rightarrow> lists \<Rightarrow> lists" where
  "merge_lists r st =
     (case st of (mi, un, ma) \<Rightarrow> (mi @ missing r, un @ unknown r, ma @ malformed r))"

definition empty_req :: Request where
  "empty_req = \<lparr>query = Undefined, params = Undefined, body = Undefined, path = Undefined\<rparr>"

fun fake_req :: "location \<Rightarrow> jsval \<Rightarrow> Request" where
  \<comment> \<open>\<^verbatim>\<open>fakeReq = {}; fakeReq[def.in] = payload\<close>\<close>
  "fake_req Query v = empty_req\<lparr>query := v\<rparr>"
| "fake_req Path v = empty_req\<lparr>path := v\<rparr>"
| "fake_req Body v = empty_req\<lparr>body := v\<rparr>"

definition canonical_booleans :: "jsval list" where
  "canonical_booleans =
     [Str ''true'', Str ''false'', Str ''0'', Str ''1'',
      Num (Finite 0), Num (Finite 1), Bool True, Bool False]"

text \<open>
  \<^verbatim>\<open>values.reduce((acc, v) => acc && !isNaN(+v), true)\<close>: once a token is not a
  number, \<^verbatim>\<open>&&\<close> converts no further token.
\<close>

fun all_numbers :: "builtins \<Rightarrow> string list \<Rightarrow> error + bool" where
  "all_numbers env [] = Inr True"
| "all_numbers env (t # ts) =
     (case ToNumber env (Str t) of
        Inl e \<Rightarrow> Inl e
      | Inr n \<Rightarrow> if isNaN n then Inr False else all_numbers env ts)"

text \<open>
  The checks by type of lines 99 to 125: whether the value breaks the rule of the
  declared type, or the exception that the test raises.
\<close>

definition malformed_value :: "builtins \<Rightarrow> ParamsDefinition \<Rightarrow> jsval \<Rightarrow> error + bool" where
  "malformed_value env def v =
     (case ptype def of
        TNumber \<Rightarrow>
          if isArray def = Some True then
            (case split_of env v (elementsDivider def) of
               Inl e \<Rightarrow> Inl e
             | Inr tokens \<Rightarrow>
                 (case all_numbers env tokens of Inl e \<Rightarrow> Inl e | Inr ok \<Rightarrow> Inr (\<not> ok)))
          else (case ToNumber env v of Inl e \<Rightarrow> Inl e | Inr n \<Rightarrow> Inr (isNaN n))
      | TDate \<Rightarrow> (case Date_time env v of Inl e \<Rightarrow> Inl e | Inr t \<Rightarrow> Inr (isNaN t))
      | TBoolean \<Rightarrow> Inr (v \<notin> set canonical_booleans)
      | TObject \<Rightarrow> Inr False
      | TString \<Rightarrow> Inr False)"

text \<open>
  The callback of the inner \<^verbatim>\<open>forEach\<close> (lines 85 to 140): what \<open>check\<close> does with
  one key \<open>nm\<close> of the mapping \<open>prms\<close> of location \<open>w\<close>. \<open>rec\<close> is the recursive
  call \<^verbatim>\<open>this.check(fakeReq, {name, def: def.properties})\<close>.
\<close>

definition check_key ::
  "builtins \<Rightarrow> ParamsSanitizer \<Rightarrow> (Request \<Rightarrow> parent \<Rightarrow> error + CheckResult)
     \<Rightarrow> ParamsDefinition list \<Rightarrow> string \<Rightarrow> location \<Rightarrow> jsval \<Rightarrow> lists \<Rightarrow> string
     \<Rightarrow> error + lists" where
  "check_key env this rec defs pth w prms st nm =
     (case find (\<lambda>d. name d = nm) (filter (\<lambda>d. in_loc d = w) defs) of
        None \<Rightarrow>
          Inr (if strict (options this) = Some True then flag_unknown w (pth @ nm) st else st)
      | Some def \<Rightarrow>
          if already_missing w (pth @ nm) st then Inr st
          else (case malformed_value env def (prop_of prms nm) of
            Inl e \<Rightarrow> Inl e
          | Inr bad \<Rightarrow>
              if bad then Inr (flag_malformed w (pth @ nm) st)
              else if ptype def = TObject then
                (case properties def of
                   None \<Rightarrow> Inr st
                 | Some props \<Rightarrow>
                     (case JSON_parse env (prop_of prms nm) of
                        Inl e \<Rightarrow> Inl e
                      | Inr payload \<Rightarrow>
                          (case rec (fake_req (in_loc def) payload) (nm, props) of
                             Inl e \<Rightarrow> Inl e
                           | Inr r \<Rightarrow> if \<not> status r then Inr (merge_lists r st) else Inr st)))
              else Inr st))"

definition result_of :: "lists \<Rightarrow> CheckResult" where
  \<comment> \<open>lines 143 to 147\<close>
  "result_of st =
     (case st of (mi, un, ma) \<Rightarrow>
        (let missingAny = filter (\<lambda>m. m > 0) (map (\<lambda>m. length (eparams m)) mi);
             unknownAny = filter (\<lambda>m. m > 0) (map (\<lambda>m. length (eparams m)) un);
             malformedAny = filter (\<lambda>m. m > 0) (map (\<lambda>m. length (eparams m)) ma)
         in \<lparr>status = \<not> (length missingAny > 0 \<or> length unknownAny > 0 \<or> length malformedAny > 0),
             unknown = un, missing = mi, malformed = ma\<rparr>))"

lemma forEach_cong [fundef_cong]:
  "xs = ys \<Longrightarrow> s = t \<Longrightarrow> (\<And>x s'. x \<in> set ys \<Longrightarrow> f s' x = g s' x)
     \<Longrightarrow> forEach f xs s = forEach g ys t"
  by (induction ys arbitrary: xs s t) (auto split: sum.splits)

lemma find_Some_in_set: "find P xs = Some x \<Longrightarrow> x \<in> set xs"
  by (induction xs) (auto split: if_splits)

lemma check_key_cong [fundef_cong]:
  assumes "env = env'" "this = this'" "defs = defs'" "pth = pth'" "w = w'"
    "prms = prms'" "st = st'" "nm = nm'"
    "\<And>fr d ps. d \<in> set defs' \<Longrightarrow> properties d = Some ps
        \<Longrightarrow> rec fr (nm', ps) = rec' fr (nm', ps)"
  shows "check_key env this rec defs pth w prms st nm
       = check_key env' this' rec' defs' pth' w' prms' st' nm'"
  using assms unfolding check_key_def
  by (auto split: option.splits sum.splits dest!: find_Some_in_set)

lemma properties_smaller:
  assumes "d \<in> set ds" and "properties d = Some ps"
  shows "size_list size ps < size_list size ds"
proof -
  have "size_list size ps < size d"
    using assms(2) by (cases d) simp
  moreover have "size d \<le> size_list size ds"
    using assms(1) by (simp add: size_list_estimation')
  ultimately show ?thesis by simp
qed

text \<open>
  \<^verbatim>\<open>check(req, parent?)\<close>: the missing pass, then every key of the three mappings
  in turn, then the verdict.
\<close>

function check ::
  "builtins \<Rightarrow> ParamsSanitizer \<Rightarrow> Request \<Rightarrow> parent option \<Rightarrow> error + CheckResult" where
  "check env this req parent =
     (case forEach
         (\<lambda>st w. forEach
            (check_key env this (\<lambda>fr p. check env this fr (Some p))
               (scope this parent) (path_prefix parent) w (mapping_of req w))
            (Object_keys (mapping_of req w)) st)
         locations
         (missing_pass (scope this parent) (path_prefix parent) req, empty_entries, empty_entries) of
        Inl e \<Rightarrow> Inl e
      | Inr st \<Rightarrow> Inr (result_of st))"
  by pat_completeness auto
termination
proof (relation "measure (\<lambda>(env, this, req, parent). size_list size (scope this parent)
          + (case parent of None \<Rightarrow> 1 | Some p \<Rightarrow> 0))")
  show "wf (measure (\<lambda>(env, this, req, parent). size_list size (scope this parent)
          + (case parent of None \<Rightarrow> 1 | Some p \<Rightarrow> 0)))"
    by simp
next
  fix env :: builtins and this :: ParamsSanitizer and req fr :: Request
    and parent :: "parent option" and w :: location and nm :: string and d ps
  assume "d \<in> set (scope this parent)" and "properties d = Some ps"
  then have "size_list size ps < size_list size (scope this parent)"
    by (rule properties_smaller)
  then show "((env, this, fr, Some (nm, ps)), (env, this, req, parent))
      \<in> measure (\<lambda>(env, this, req, parent). size_list size (scope this parent)
          + (case parent of None \<Rightarrow> 1 | Some p \<Rightarrow> 0))"
    by (simp add: scope_def)
qed

declare check.simps [simp del]

section \<open>values\<close>

definition default_of :: "ParamsDefinition \<Rightarrow> jsval" where
  \<comment> \<open>\<^verbatim>\<open>def.default\<close>\<close>
  "default_of d = (case default_val d of None \<Rightarrow> Undefined | Some v \<Rightarrow> v)"

fun numbers_of :: "builtins \<Rightarrow> string list \<Rightarrow> error + jsnum list" where
  \<comment> \<open>\<^verbatim>\<open>values.map(v => +v)\<close>\<close>
  "numbers_of env [] = Inr []"
| "numbers_of env (t # ts) =
     (case ToNumber env (Str t) of
        Inl e \<Rightarrow> Inl e
      | Inr n \<Rightarrow> (case numbers_of env ts of Inl e \<Rightarrow> Inl e | Inr ns \<Rightarrow> Inr (n # ns)))"

definition canonical_true :: "jsval list" where
  \<comment> \<open>\<^verbatim>\<open>[true, 'true', 1, '1']\<close>\<close>
  "canonical_true = [Bool True, Str ''true'', Num (Finite 1), Str ''1'']"

lemma property_smaller:
  assumes "ddef \<in> set ps" and "properties d = Some ps"
  shows "size ddef < size d"
proof -
  have "size ddef \<le> size_list size ps"
    using assms(1) by (simp add: size_list_estimation')
  moreover have "size_list size ps < size d"
    using assms(2) by (cases d) simp
  ultimately show ?thesis by simp
qed

text \<open>
  \<^verbatim>\<open>parseValue(value, def)\<close>. The object branch writes the coerced properties into
  \<open>objValue\<close>, which is the caller's own object when the raw value is not a string. The
  second component of the result is therefore the raw value as the caller finds it after
  the call.
\<close>

function parseValue :: "builtins \<Rightarrow> jsval \<Rightarrow> ParamsDefinition \<Rightarrow> error + jsval \<times> jsval" where
  "parseValue env val def =
     (if nullish val then Inr (default_of def, val)
      else (case ptype def of
        TNumber \<Rightarrow>
          if isArray def = Some True then
            (case split_of env val (elementsDivider def) of
               Inl e \<Rightarrow> Inl e
             | Inr tokens \<Rightarrow>
                 (case numbers_of env tokens of
                    Inl e \<Rightarrow> Inl e
                  | Inr ns \<Rightarrow> Inr (array_of (map Num ns), val)))
          else (case ToNumber env val of Inl e \<Rightarrow> Inl e | Inr n \<Rightarrow> Inr (Num n, val))
      | TDate \<Rightarrow>
          (case Date_time env val of Inl e \<Rightarrow> Inl e | Inr t \<Rightarrow> Inr (DateObj t [], val))
      | TBoolean \<Rightarrow>
          if isArray def = Some True then
            (case split_of env val (elementsDivider def) of
               Inl e \<Rightarrow> Inl e
             | Inr tokens \<Rightarrow>
                 Inr (array_of (map (\<lambda>v. Bool (v \<in> set [''true'', ''1''])) tokens), val))
          else Inr (Bool (val \<in> set canonical_true), val)
      | TObject \<Rightarrow>
          (case (case val of Str s \<Rightarrow> JSON_parse env val | _ \<Rightarrow> Inr val) of
             Inl e \<Rightarrow> Inl e
           | Inr objValue \<Rightarrow>
               (case forEach
                   (\<lambda>obj ddef.
                      case get_prop env obj (name ddef) of
                        Inl e \<Rightarrow> Inl e
                      | Inr v \<Rightarrow>
                          (case parseValue env v ddef of
                             Inl e \<Rightarrow> Inl e
                           | Inr (r, v') \<Rightarrow> set_prop env obj (name ddef) r))
                   (case properties def of None \<Rightarrow> [] | Some ps \<Rightarrow> ps)
                   objValue of
                  Inl e \<Rightarrow> Inl e
                | Inr obj' \<Rightarrow> Inr (obj', case val of Str s \<Rightarrow> val | _ \<Rightarrow> obj')))
      | TString \<Rightarrow>
          if isArray def = Some True then
            (case split_of env val (elementsDivider def) of
               Inl e \<Rightarrow> Inl e
             | Inr tokens \<Rightarrow> Inr (array_of (map Str tokens), val))
          else Inr (val, val)))"
  by pat_completeness auto
termination
proof (relation "measure (\<lambda>(env, val, def). size def)")
  show "wf (measure (\<lambda>(env, val, def). size def))"
    by simp
next
  fix env :: builtins and val v :: jsval and def ddef :: ParamsDefinition
  assume "ddef \<in> set (case properties def of None \<Rightarrow> [] | Some ps \<Rightarrow> ps)"
  then have "size ddef < size def"
    by (auto split: option.splits intro: property_smaller)
  then show "((env, v, ddef), (env, val, def)) \<in> measure (\<lambda>(env, val, def). size def)"
    by simp
qed

declare parseValue.simps [simp del]

text \<open>
  \<open>put_back p k v\<close> is the mapping \<open>p\<close> once the value it holds under its own key
  \<open>k\<close> has become \<open>v\<close> in place; \<open>with_input\<close> is the request with one mapping
  replaced.
\<close>

fun put_back :: "jsval \<Rightarrow> string \<Rightarrow> jsval \<Rightarrow> jsval" where
  "put_back (Obj kvs) k v = Obj (replace_value k v kvs)"
| "put_back (Arr n kvs) k v = (if k = ''length'' then Arr n kvs else Arr n (replace_value k v kvs))"
| "put_back (DateObj t kvs) k v = DateObj t (replace_value k v kvs)"
| "put_back p k v = p"

fun with_input :: "Request \<Rightarrow> location \<Rightarrow> jsval \<Rightarrow> Request" where
  "with_input req Query v = req\<lparr>query := v\<rparr>"
| "with_input req Path v = req\<lparr>params := v\<rparr>"
| "with_input req Body v = req\<lparr>body := v\<rparr>"

fun output_of :: "ValueResult \<Rightarrow> location \<Rightarrow> jsval" where
  "output_of obj Query = vquery obj"
| "output_of obj Path = vpath obj"
| "output_of obj Body = vbody obj"

fun with_output :: "ValueResult \<Rightarrow> location \<Rightarrow> jsval \<Rightarrow> ValueResult" where
  "with_output obj Query v = obj\<lparr>vquery := v\<rparr>"
| "with_output obj Path v = obj\<lparr>vpath := v\<rparr>"
| "with_output obj Body v = obj\<lparr>vbody := v\<rparr>"

definition store_value ::
  "builtins \<Rightarrow> ValueResult \<Rightarrow> location \<Rightarrow> string \<Rightarrow> jsval \<Rightarrow> error + ValueResult" where
  \<comment> \<open>\<^verbatim>\<open>obj[def.in][def.name] = value\<close>\<close>
  "store_value env obj w k v =
     (case set_prop env (output_of obj w) k v of
        Inl e \<Rightarrow> Inl e
      | Inr m \<Rightarrow> Inr (with_output obj w m))"

text \<open>
  The callback of \<^verbatim>\<open>this.definitions.forEach\<close> in \<^verbatim>\<open>values\<close>, on the pair of the
  result under construction and the request as the calls so far have left it.
\<close>

definition values_step ::
  "builtins \<Rightarrow> ValueResult \<times> Request \<Rightarrow> ParamsDefinition \<Rightarrow> error + ValueResult \<times> Request" where
  "values_step env st def =
     (case st of (obj, req) \<Rightarrow>
        (case get_prop env (input_of req (in_loc def)) (name def) of
           Inl e \<Rightarrow> Inl e
         | Inr raw \<Rightarrow>
             (case parseValue env raw def of
                Inl e \<Rightarrow> Inl e
              | Inr (v, raw') \<Rightarrow>
                  (case (if \<not> nullish v then store_value env obj (in_loc def) (name def) v
                         else Inr obj) of
                     Inl e \<Rightarrow> Inl e
                   | Inr obj' \<Rightarrow>
                       Inr (obj',
                            with_input req (in_loc def)
                              (put_back (input_of req (in_loc def)) (name def) raw'))))))"

definition empty_result :: ValueResult where
  \<comment> \<open>\<^verbatim>\<open>{ query: {}, path: {}, body: {} }\<close>\<close>
  "empty_result = \<lparr>vquery = Obj [], vpath = Obj [], vbody = Obj []\<rparr>"

definition values_of ::
  "builtins \<Rightarrow> ParamsSanitizer \<Rightarrow> Request \<Rightarrow> error + ValueResult \<times> Request" where
  \<comment> \<open>\<^verbatim>\<open>values(req)\<close>: the result, and the request after the call\<close>
  "values_of env this req = forEach (values_step env) (definitions this) (empty_result, req)"
section \<open>Notions used to state the results\<close>

text \<open>
  Each of the three lists of a result starts with the three entries that the call itself
  created, for query, path and body in this order; what a nested validation contributes
  is appended behind them. \<open>own_entry es w\<close> is the entry of location \<open>w\<close> among the
  first three, the one that \<^verbatim>\<open>es.find(u => u.where === w)\<close> reaches.
\<close>

fun loc_index :: "location \<Rightarrow> nat" where
  "loc_index Query = 0"
| "loc_index Path = 1"
| "loc_index Body = 2"

definition own_entry :: "Entry list \<Rightarrow> location \<Rightarrow> Entry" where
  "own_entry es w = es ! loc_index w"

definition own_entries :: "Entry list \<Rightarrow> bool" where
  "own_entries es = (3 \<le> length es \<and> map ewhere (take 3 es) = locations)"

text \<open>
  What holds of the three lists while one call visits the keys: the missing list is the
  one of the missing pass with entries appended, and the own malformed entry of a location
  holds qualified keys of that location's mapping only.
\<close>

definition level_inv :: "Entry list \<Rightarrow> string \<Rightarrow> Request \<Rightarrow> lists \<Rightarrow> bool" where
  "level_inv mi0 pth req st =
     (case st of (mi, un, ma) \<Rightarrow>
        (\<exists>ex. mi = mi0 @ ex) \<and> own_entries un \<and> own_entries ma
        \<and> (\<forall>w. set (eparams (own_entry ma w))
               \<subseteq> (\<lambda>k. pth @ k) ` set (Object_keys (mapping_of req w))))"

definition unknown_has :: "location \<Rightarrow> string \<Rightarrow> lists \<Rightarrow> bool" where
  "unknown_has w n st = (case st of (mi, un, ma) \<Rightarrow> n \<in> set (eparams (own_entry un w)))"

text \<open>
  \<open>reported_missing r w n\<close>: the result lists the name \<open>n\<close> as missing for the location
  \<open>w\<close>, in the entry of the call or in one merged from a nested validation. This is the
  test of line 95 on the final list.
\<close>

definition reported_missing :: "CheckResult \<Rightarrow> location \<Rightarrow> string \<Rightarrow> bool" where
  "reported_missing r w n = list_ex (\<lambda>m. ewhere m = w \<and> n \<in> set (eparams m)) (missing r)"

text \<open>
  \<open>key_outcome env this k d v\<close>: the exception, if any, that \<open>check\<close> raises when it
  validates the value \<open>v\<close> of the key \<open>k\<close> against the definition \<open>d\<close>: the one of the
  checks by type, of \<^verbatim>\<open>JSON.parse\<close> on the value of an object with properties, or of
  the nested validation.
\<close>

definition key_outcome ::
  "builtins \<Rightarrow> ParamsSanitizer \<Rightarrow> string \<Rightarrow> ParamsDefinition \<Rightarrow> jsval \<Rightarrow> error option" where
  "key_outcome env this k d v =
     (case malformed_value env d v of
        Inl e \<Rightarrow> Some e
      | Inr bad \<Rightarrow>
          if ptype d = TObject then
            (case properties d of
               None \<Rightarrow> None
             | Some ps \<Rightarrow>
                 (case JSON_parse env v of
                    Inl e \<Rightarrow> Some e
                  | Inr payload \<Rightarrow>
                      (case check env this (fake_req (in_loc d) payload) (Some (k, ps)) of
                         Inl e \<Rightarrow> Some e
                       | Inr r \<Rightarrow> None)))
          else None)"

text \<open>
  The mappings of the result are plain objects, and none comes to own the key
  \<^verbatim>\<open>__proto__\<close>.
\<close>

definition plain_output :: "ValueResult \<Rightarrow> bool" where
  "plain_output obj =
     (\<forall>w. \<exists>kvs. output_of obj w = Obj kvs \<and> map_of kvs ''__proto__'' = None)"

text \<open>A field is identified by its location and name.\<close>

definition field_key :: "ParamsDefinition \<Rightarrow> location \<times> string" where
  "field_key d = (in_loc d, name d)"

text \<open>
  \<open>overwritten_in_place d raw\<close>: the object branch of \<open>parseValue\<close> writes into the raw
  value itself, which happens when \<open>d\<close> is object-typed with at least one property and
  \<open>raw\<close> is neither a string nor \<^verbatim>\<open>null\<close> or \<^verbatim>\<open>undefined\<close>.
\<close>

definition overwritten_in_place :: "ParamsDefinition \<Rightarrow> jsval \<Rightarrow> bool" where
  "overwritten_in_place d raw =
     (ptype d = TObject
      \<and> (case properties d of None \<Rightarrow> False | Some ps \<Rightarrow> ps \<noteq> [])
      \<and> \<not> nullish raw
      \<and> (case raw of Str s \<Rightarrow> False | _ \<Rightarrow> True))"

text \<open>\<open>nests d\<close>: \<open>check\<close> validates the value of \<open>d\<close> recursively.\<close>

definition nests :: "ParamsDefinition \<Rightarrow> bool" where
  "nests d = (ptype d = TObject \<and> properties d \<noteq> None)"

text \<open>
  Two conditions on a schema under which a qualified name determines its field: no name
  contains the dot that joins a path, and the properties of an object are validated at
  one level only, in the location of the object.
\<close>

definition dot_free :: "string \<Rightarrow> bool" where
  "dot_free s = (CHR ''.'' \<notin> set s)"

definition flat_properties :: "ParamsDefinition \<Rightarrow> bool" where
  "flat_properties d =
     (case properties d of
        None \<Rightarrow> True
      | Some ps \<Rightarrow> list_all (\<lambda>p. \<not> nests p \<and> in_loc p = in_loc d) ps)"

text \<open>
  \<open>nested_at env this req w k d r'\<close>: the top-level call finds the definition \<open>d\<close> for the
  key \<open>k\<close> of location \<open>w\<close>, parses the value of the key and validates it against the
  properties of \<open>d\<close> with the result \<open>r'\<close>.
\<close>

definition nested_at ::
  "builtins \<Rightarrow> ParamsSanitizer \<Rightarrow> Request \<Rightarrow> location \<Rightarrow> string \<Rightarrow> ParamsDefinition
     \<Rightarrow> CheckResult \<Rightarrow> bool" where
  "nested_at env this req w k d r' =
     (find (\<lambda>d. name d = k) (filter (\<lambda>d. in_loc d = w) (definitions this)) = Some d
      \<and> (\<exists>ps payload. properties d = Some ps
            \<and> JSON_parse env (prop_of (mapping_of req w) k) = Inr payload
            \<and> check env this (fake_req w payload) (Some (k, ps)) = Inr r'))"

text \<open>
  What holds of the missing and the malformed list while the top-level call visits the
  keys: each is the three entries of the call followed by entries of nested validations,
  and the own malformed entries hold names of top-level definitions.
\<close>

definition top_inv :: "builtins \<Rightarrow> ParamsSanitizer \<Rightarrow> Request \<Rightarrow> lists \<Rightarrow> bool" where
  "top_inv env this req st =
     (case st of (mi, un, ma) \<Rightarrow>
        (\<exists>mex. mi = missing_pass (definitions this) [] req @ mex
           \<and> (\<forall>e \<in> set mex. \<exists>w k d r'. nested_at env this req w k d r' \<and> e \<in> set (missing r')))
        \<and> (\<exists>own maex. ma = own @ maex \<and> length own = 3 \<and> own_entries own
              \<and> (\<forall>e \<in> set own. \<forall>n \<in> set (eparams e). \<exists>d \<in> set (definitions this). n = name d)
              \<and> (\<forall>e \<in> set maex. \<exists>w k d r'.
                    nested_at env this req w k d r' \<and> e \<in> set (malformed r'))))"

section \<open>Example schemas and requests\<close>

text \<open>
  The examples below are evaluated in the theorems that follow. \<open>example_builtins\<close>
  agrees with JavaScript on the values the examples pass to the built-ins:
  \<^verbatim>\<open>JSON.parse('{}')\<close> is the empty object, \<^verbatim>\<open>JSON.parse('{"p":"{}"}')\<close> is the
  object whose property \<^verbatim>\<open>p\<close> is the string \<^verbatim>\<open>{}\<close>, \<^verbatim>\<open>JSON.parse('{')\<close>
  throws a \<^verbatim>\<open>SyntaxError\<close>, \<^verbatim>\<open>+'x'\<close> is \<^verbatim>\<open>NaN\<close> and \<^verbatim>\<open>+'7'\<close> is 7; a plain
  object inherits \<^verbatim>\<open>constructor\<close>, the function \<^verbatim>\<open>Object\<close>, and \<^verbatim>\<open>__proto__\<close>,
  its prototype, and neither a plain object nor an array inherits a property named
  \<^verbatim>\<open>split\<close>, \<^verbatim>\<open>b\<close>, \<^verbatim>\<open>flag\<close> or \<^verbatim>\<open>p2\<close>. No theorem uses it on another
  value.
\<close>

definition example_builtins :: builtins where
  \<open>example_builtins =
     \<lparr>JSON_parse = (\<lambda>v. if v = Str ''{}'' then Inr (Obj [])
                       else if v = Str ''{"p":"{}"}'' then Inr (Obj [(''p'', Str ''{}'')])
                       else Inl SyntaxError),
      ToNumber = (\<lambda>v. if v = Str ''7'' then Inr (Finite 7) else Inr NaN),
      Date_time = (\<lambda>v. Inr NaN),
      inherited = (\<lambda>kd k. if kd = KObject \<and> k = ''constructor'' then Intrinsic ''Object''
                           else if kd = KObject \<and> k = ''__proto__'' then Intrinsic ''Object.prototype''
                           else Undefined)\<rparr>\<close>

definition entries :: "string list \<Rightarrow> string list \<Rightarrow> string list \<Rightarrow> Entry list" where
  \<comment> \<open>the three entries one call creates, with the names of query, path and body\<close>
  "entries q p b =
     [\<lparr>ewhere = Query, eparams = q\<rparr>, \<lparr>ewhere = Path, eparams = p\<rparr>, \<lparr>ewhere = Body, eparams = b\<rparr>]"

text \<open>
  The example of the specification: \<^verbatim>\<open>p1\<close> is a required string and \<^verbatim>\<open>p2\<close> a
  number, both in the query; strict mode; the query is \<^verbatim>\<open>{p1: "x", p3: "y"}\<close>.
\<close>

definition spec_p1 :: ParamsDefinition where
  "spec_p1 = ParamsDefinition ''p1'' TString None None None (Some True) Query None"

definition spec_p2 :: ParamsDefinition where
  "spec_p2 = ParamsDefinition ''p2'' TNumber None None None None Query None"

definition strict_sanitizer :: ParamsSanitizer where
  "strict_sanitizer = new_sanitizer [spec_p1, spec_p2] \<lparr>strict = Some True\<rparr>"

definition strict_request :: Request where
  "strict_request =
     \<lparr>query = Obj [(''p1'', Str ''x''), (''p3'', Str ''y'')], params = Obj [], body = Obj [],
      path = Str ''/''\<rparr>"

definition strict_result :: CheckResult where
  "strict_result =
     \<lparr>status = False, unknown = entries [''p3''] [] [], missing = entries [] [] [],
      malformed = entries [] [] []\<rparr>"

text \<open>
  Three levels of nesting: the query field \<^verbatim>\<open>g\<close> is an object with the property
  \<^verbatim>\<open>p\<close>, an object with the required property \<^verbatim>\<open>c\<close>. The request carries
  \<^verbatim>\<open>g={"p":"{}"}\<close>, so \<^verbatim>\<open>c\<close> is absent.
\<close>

definition child_c :: ParamsDefinition where
  "child_c = ParamsDefinition ''c'' TString None None None (Some True) Query None"

definition parent_p :: ParamsDefinition where
  "parent_p = ParamsDefinition ''p'' TObject None None None None Query (Some [child_c])"

definition grandparent_g :: ParamsDefinition where
  "grandparent_g = ParamsDefinition ''g'' TObject None None None None Query (Some [parent_p])"

definition deep_sanitizer :: ParamsSanitizer where
  "deep_sanitizer = new_sanitizer [grandparent_g] \<lparr>strict = None\<rparr>"

definition deep_request :: Request where
  \<open>deep_request =
     \<lparr>query = Obj [(''g'', Str ''{"p":"{}"}'')], params = Obj [], body = Obj [],
      path = Str ''/''\<rparr>\<close>

definition level_c_result :: CheckResult where
  "level_c_result =
     \<lparr>status = False, unknown = entries [] [] [], missing = entries [''p.c''] [] [],
      malformed = entries [] [] []\<rparr>"

text \<open>
  A body field \<^verbatim>\<open>addr\<close> that is an object with a boolean property \<^verbatim>\<open>flag\<close>; the
  JSON body is \<^verbatim>\<open>{"addr": {"flag": "1"}}\<close>, already structured.
\<close>

definition flag_property :: ParamsDefinition where
  "flag_property = ParamsDefinition ''flag'' TBoolean None None None None Body None"

definition addr_field :: ParamsDefinition where
  "addr_field = ParamsDefinition ''addr'' TObject None None None None Body (Some [flag_property])"

definition addr_sanitizer :: ParamsSanitizer where
  "addr_sanitizer = new_sanitizer [addr_field] \<lparr>strict = None\<rparr>"

definition addr_request :: Request where
  "addr_request =
     \<lparr>query = Obj [], params = Obj [], body = Obj [(''addr'', Obj [(''flag'', Str ''1'')])],
      path = Str ''/''\<rparr>"

text \<open>
  A query field named \<^verbatim>\<open>a.b\<close>, a number, beside the object \<^verbatim>\<open>a\<close> with the required
  property \<^verbatim>\<open>b\<close>; the query string is \<^verbatim>\<open>a.b=x&a={}\<close>.
\<close>

definition dotted_ab :: ParamsDefinition where
  "dotted_ab = ParamsDefinition ''a.b'' TNumber None None None None Query None"

definition nested_b :: ParamsDefinition where
  "nested_b = ParamsDefinition ''b'' TString None None None (Some True) Query None"

definition object_a :: ParamsDefinition where
  "object_a = ParamsDefinition ''a'' TObject None None None None Query (Some [nested_b])"

definition dotted_sanitizer :: ParamsSanitizer where
  "dotted_sanitizer = new_sanitizer [dotted_ab, object_a] \<lparr>strict = None\<rparr>"

definition dotted_request :: Request where
  "dotted_request =
     \<lparr>query = Obj [(''a.b'', Str ''x''), (''a'', Str ''{}'')], params = Obj [], body = Obj [],
      path = Str ''/''\<rparr>"

definition dotted_result :: CheckResult where
  "dotted_result =
     \<lparr>status = False,
      unknown = entries [] [] [] @ entries [] [] [],
      missing = entries [] [] [] @ entries [''a.b''] [] [],
      malformed = entries [''a.b''] [] [] @ entries [] [] []\<rparr>"

text \<open>
  The same object \<^verbatim>\<open>a\<close> alone, not in strict mode; the query string is
  \<^verbatim>\<open>a={}&a.b=y\<close>, where \<^verbatim>\<open>a.b\<close> is a key no definition names.
\<close>

definition lenient_sanitizer :: ParamsSanitizer where
  "lenient_sanitizer = new_sanitizer [object_a] \<lparr>strict = None\<rparr>"

definition lenient_request :: Request where
  "lenient_request =
     \<lparr>query = Obj [(''a'', Str ''{}''), (''a.b'', Str ''y'')], params = Obj [], body = Obj [],
      path = Str ''/''\<rparr>"

definition lenient_result :: CheckResult where
  "lenient_result =
     \<lparr>status = False,
      unknown = entries [] [] [] @ entries [] [] [],
      missing = entries [] [] [] @ entries [''a.b''] [] [],
      malformed = entries [] [] [] @ entries [] [] []\<rparr>"

text \<open>
  An array-typed number field of the body, sent as the JSON array \<^verbatim>\<open>{"ids": [1, 2]}\<close>.
\<close>

definition ids_field :: ParamsDefinition where
  "ids_field = ParamsDefinition ''ids'' TNumber (Some True) None None None Body None"

definition ids_sanitizer :: ParamsSanitizer where
  "ids_sanitizer = new_sanitizer [ids_field] \<lparr>strict = None\<rparr>"

definition ids_request :: Request where
  "ids_request =
     \<lparr>query = Obj [], params = Obj [],
      body = Obj [(''ids'', array_of [Num (Finite 1), Num (Finite 2)])], path = Str ''/''\<rparr>"

text \<open>
  The boolean query field \<^verbatim>\<open>flag\<close> with default \<^verbatim>\<open>false\<close> of the specification,
  with no value, with the value \<^verbatim>\<open>"1"\<close> and with the value \<^verbatim>\<open>"maybe"\<close>.
\<close>

definition flag_field :: ParamsDefinition where
  "flag_field = ParamsDefinition ''flag'' TBoolean None None (Some (Bool False)) None Query None"

definition flag_sanitizer :: ParamsSanitizer where
  "flag_sanitizer = new_sanitizer [flag_field] \<lparr>strict = None\<rparr>"

definition no_flag_request :: Request where
  "no_flag_request = \<lparr>query = Obj [], params = Obj [], body = Obj [], path = Str ''/''\<rparr>"

definition flag_request :: "string \<Rightarrow> Request" where
  "flag_request s =
     \<lparr>query = Obj [(''flag'', Str s)], params = Obj [], body = Obj [], path = Str ''/''\<rparr>"

text \<open>
  An object field of the query whose property \<^verbatim>\<open>zip\<close> is declared in the body, and
  one whose value \<^verbatim>\<open>{\<close> is not JSON.
\<close>

definition body_zip :: ParamsDefinition where
  "body_zip = ParamsDefinition ''zip'' TString None None None (Some True) Body None"


definition unparsable_request :: Request where
  "unparsable_request =
     \<lparr>query = Obj [(''a'', Str ''{'')], params = Obj [], body = Obj [], path = Str ''/''\<rparr>"

text \<open>
  The boolean field of the specification under the name \<^verbatim>\<open>constructor\<close>, which the
  empty query does not hold but inherits.
\<close>

definition constructor_field :: ParamsDefinition where
  "constructor_field =
     ParamsDefinition ''constructor'' TBoolean None None (Some (Bool False)) None Query None"

definition constructor_sanitizer :: ParamsSanitizer where
  "constructor_sanitizer = new_sanitizer [constructor_field] \<lparr>strict = None\<rparr>"

text \<open>
  The same field under the name \<^verbatim>\<open>__proto__\<close>, in the body; the JSON bodies are
  \<^verbatim>\<open>{"__proto__": null}\<close> and \<^verbatim>\<open>{"__proto__": "1"}\<close>, in which \<^verbatim>\<open>JSON.parse\<close>
  makes \<^verbatim>\<open>__proto__\<close> an own property.
\<close>

definition proto_field :: ParamsDefinition where
  "proto_field =
     ParamsDefinition ''__proto__'' TBoolean None None (Some (Bool False)) None Body None"

definition proto_sanitizer :: ParamsSanitizer where
  "proto_sanitizer = new_sanitizer [proto_field] \<lparr>strict = None\<rparr>"

definition proto_request :: "jsval \<Rightarrow> Request" where
  "proto_request v =
     \<lparr>query = Obj [], params = Obj [], body = Obj [(''__proto__'', v)], path = Str ''/''\<rparr>"

text \<open>
  The object \<^verbatim>\<open>a\<close> with the required property \<^verbatim>\<open>b\<close> beside a boolean field named
  \<^verbatim>\<open>a.b\<close>; the query string is \<^verbatim>\<open>a={}&a.b=maybe\<close>.
\<close>

definition boolean_ab :: ParamsDefinition where
  "boolean_ab = ParamsDefinition ''a.b'' TBoolean None None None None Query None"

definition skipping_sanitizer :: ParamsSanitizer where
  "skipping_sanitizer = new_sanitizer [object_a, boolean_ab] \<lparr>strict = None\<rparr>"

definition skipping_request :: Request where
  "skipping_request =
     \<lparr>query = Obj [(''a'', Str ''{}''), (''a.b'', Str ''maybe'')], params = Obj [], body = Obj [],
      path = Str ''/''\<rparr>"

text \<open>
  The same object \<^verbatim>\<open>a\<close> beside an object field named \<^verbatim>\<open>a.b\<close> whose value cannot
  be parsed; the query string is \<^verbatim>\<open>a={}&a.b={\<close>.
\<close>

definition object_ab :: ParamsDefinition where
  "object_ab = ParamsDefinition ''a.b'' TObject None None None None Query (Some [nested_b])"

definition guarded_sanitizer :: ParamsSanitizer where
  "guarded_sanitizer = new_sanitizer [object_a, object_ab] \<lparr>strict = None\<rparr>"

definition guarded_request :: Request where
  "guarded_request =
     \<lparr>query = Obj [(''a'', Str ''{}''), (''a.b'', Str ''{'')], params = Obj [], body = Obj [],
      path = Str ''/''\<rparr>"
section \<open>Loops and entries\<close>

lemma forEach_invariant:
  assumes "forEach f xs s = Inr t" and "P s"
    and "\<And>x a b. x \<in> set xs \<Longrightarrow> P a \<Longrightarrow> f a x = Inr b \<Longrightarrow> P b"
  shows "P t"
  using assms
proof (induction xs arbitrary: s)
  case Nil
  then show ?case by simp
next
  case (Cons x xs)
  from Cons.prems(1) obtain s' where step: "f s x = Inr s'" and rest: "forEach f xs s' = Inr t"
    by (auto split: sum.splits)
  have "P s'" using Cons.prems(3)[of x s s'] Cons.prems(2) step by simp
  moreover have "P b" if "y \<in> set xs" "P a" "f a y = Inr b" for y a b
    using Cons.prems(3)[of y a b] that by simp
  ultimately show ?case using Cons.IH[OF rest] by blast
qed

lemma forEach_reaches:
  assumes "forEach f xs s = Inr t" and "x \<in> set xs" and "P s"
    and "\<And>y a b. y \<in> set xs \<Longrightarrow> P a \<Longrightarrow> f a y = Inr b \<Longrightarrow> P b"
    and "\<And>a b. P a \<Longrightarrow> f a x = Inr b \<Longrightarrow> Q b"
    and "\<And>y a b. y \<in> set xs \<Longrightarrow> P a \<Longrightarrow> Q a \<Longrightarrow> f a y = Inr b \<Longrightarrow> Q b"
  shows "Q t"
proof -
  have both: "P t \<and> (Q s \<or> x \<in> set xs \<longrightarrow> Q t)"
    using assms(1,3,4,5,6)
  proof (induction xs arbitrary: s)
    case Nil
    then show ?case by simp
  next
    case (Cons y ys)
    from Cons.prems(1) obtain s' where step: "f s y = Inr s'" and rest: "forEach f ys s' = Inr t"
      by (auto split: sum.splits)
    have P': "P s'" using Cons.prems(3)[of y s s'] Cons.prems(2) step by simp
    have a: "P b" if "z \<in> set ys" "P a" "f a z = Inr b" for z a b
      using Cons.prems(3)[of z a b] that by simp
    have b: "Q b" if "z \<in> set ys" "P a" "Q a" "f a z = Inr b" for z a b
      using Cons.prems(5)[of z a b] that by simp
    have IH: "P t \<and> (Q s' \<or> x \<in> set ys \<longrightarrow> Q t)"
      using Cons.IH[OF rest P' a Cons.prems(4) b] .
    have "Q s'" if "Q s \<or> x = y"
      using that Cons.prems(2,4) Cons.prems(5)[of y s s'] step by auto
    then show ?case using IH by auto
  qed
  then show ?thesis using assms(2) by simp
qed

lemma forEach_total:
  assumes "\<And>x a. x \<in> set xs \<Longrightarrow> \<exists>b. f a x = Inr b"
  shows "\<exists>t. forEach f xs s = Inr t"
  using assms
proof (induction xs arbitrary: s)
  case Nil
  then show ?case by simp
next
  case (Cons x xs)
  obtain b where "f s x = Inr b" using Cons.prems[of x s] by auto
  then show ?case using Cons.IH[of b] Cons.prems by simp
qed

lemma find_Some_holds: "find P xs = Some x \<Longrightarrow> P x"
  by (induction xs) (auto split: if_splits)

lemma own_entries_cases:
  assumes "own_entries es"
  obtains a b c rest where
    "es = \<lparr>ewhere = Query, eparams = a\<rparr> # \<lparr>ewhere = Path, eparams = b\<rparr>
            # \<lparr>ewhere = Body, eparams = c\<rparr> # rest"
proof -
  from assms obtain e0 e1 e2 rest where es: "es = e0 # e1 # e2 # rest"
    by (cases es; cases "tl es"; cases "tl (tl es)") (auto simp: own_entries_def)
  with assms have "ewhere e0 = Query" "ewhere e1 = Path" "ewhere e2 = Body"
    by (auto simp: own_entries_def locations_def)
  then have "e0 = \<lparr>ewhere = Query, eparams = eparams e0\<rparr>"
    "e1 = \<lparr>ewhere = Path, eparams = eparams e1\<rparr>" "e2 = \<lparr>ewhere = Body, eparams = eparams e2\<rparr>"
    by simp_all
  with es that show thesis by metis
qed

lemma own_entries_push:
  assumes "own_entries es"
  shows "own_entries (push_param w n es)"
    and "eparams (own_entry (push_param w n es) w) = eparams (own_entry es w) @ [n]"
    and "w' \<noteq> w \<Longrightarrow> own_entry (push_param w n es) w' = own_entry es w'"
proof -
  from assms obtain a b c rest where
    es: "es = \<lparr>ewhere = Query, eparams = a\<rparr> # \<lparr>ewhere = Path, eparams = b\<rparr>
            # \<lparr>ewhere = Body, eparams = c\<rparr> # rest"
    by (rule own_entries_cases)
  show "own_entries (push_param w n es)"
    unfolding es by (cases w) (simp_all add: own_entries_def locations_def)
  show "eparams (own_entry (push_param w n es) w) = eparams (own_entry es w) @ [n]"
    unfolding es by (cases w) (simp_all add: own_entry_def)
  show "own_entry (push_param w n es) w' = own_entry es w'" if "w' \<noteq> w"
    using that unfolding es by (cases w; cases w') (simp_all add: own_entry_def)
qed

lemma own_entries_append:
  assumes "own_entries es"
  shows "own_entries (es @ ex)" and "own_entry (es @ ex) w = own_entry es w"
proof -
  from assms obtain a b c rest where
    es: "es = \<lparr>ewhere = Query, eparams = a\<rparr> # \<lparr>ewhere = Path, eparams = b\<rparr>
            # \<lparr>ewhere = Body, eparams = c\<rparr> # rest"
    by (rule own_entries_cases)
  show "own_entries (es @ ex)"
    unfolding es by (simp add: own_entries_def locations_def)
  show "own_entry (es @ ex) w = own_entry es w"
    unfolding es by (cases w) (simp_all add: own_entry_def)
qed

lemma own_entries_initial:
  "own_entries empty_entries" "own_entries (missing_pass defs pth req)"
  by (simp_all add: own_entries_def empty_entries_def missing_pass_def locations_def)


lemma own_entry_missing_pass:
  "own_entry (missing_pass defs pth req) w =
     \<lparr>ewhere = w,
      eparams = map (\<lambda>p. pth @ p)
        (filter (\<lambda>r. r \<notin> set (Object_keys (mapping_of req w))) (required_names defs w))\<rparr>"
  by (cases w) (simp_all add: own_entry_def missing_pass_def locations_def)

section \<open>One level of \<open>check\<close>\<close>

lemma check_key_shape:
  assumes "check_key env this rec defs pth w prms (mi, un, ma) k = Inr (mi', un', ma')"
  shows "(\<exists>ex. mi' = mi @ ex)
       \<and> ((\<exists>ex. un' = un @ ex) \<or> un' = push_param w (pth @ k) un)
       \<and> ((\<exists>ex. ma' = ma @ ex) \<or> ma' = push_param w (pth @ k) ma)"
proof -
  let ?goal = "(\<exists>ex. mi' = mi @ ex)
       \<and> ((\<exists>ex. un' = un @ ex) \<or> un' = push_param w (pth @ k) un)
       \<and> ((\<exists>ex. ma' = ma @ ex) \<or> ma' = push_param w (pth @ k) ma)"
  have same: ?goal if "mi = mi'" "un = un'" "ma = ma'"
    using that by simp
  have flagged: ?goal if "flag_malformed w (pth @ k) (mi, un, ma) = (mi', un', ma')"
    using that by (auto simp: flag_malformed_def)
  have unk: ?goal if "flag_unknown w (pth @ k) (mi, un, ma) = (mi', un', ma')"
    using that by (auto simp: flag_unknown_def)
  have merged: ?goal if "merge_lists r (mi, un, ma) = (mi', un', ma')" for r
    using that by (auto simp: merge_lists_def)
  show ?thesis
  proof (cases "find (\<lambda>d. name d = k) (filter (\<lambda>d. in_loc d = w) defs)")
    case None
    then show ?thesis using assms same unk
      by (simp add: check_key_def split: if_splits)
  next
    case (Some d)
    show ?thesis
    proof (cases "already_missing w (pth @ k) (mi, un, ma)")
      case True
      then show ?thesis using assms Some same by (simp add: check_key_def)
    next
      case False
      then show ?thesis using assms Some same flagged merged
        by (simp add: check_key_def split: if_splits option.splits sum.splits)
    qed
  qed
qed

lemma level_inv_step:
  assumes "level_inv mi0 pth req st"
    and "check_key env this rec defs pth w (mapping_of req w) st k = Inr st'"
    and "k \<in> set (Object_keys (mapping_of req w))"
  shows "level_inv mi0 pth req st'"
proof -
  obtain mi un ma where st: "st = (mi, un, ma)" by (cases st)
  obtain mi' un' ma' where st': "st' = (mi', un', ma')" by (cases st')
  from assms(1) st obtain ex0 where mi: "mi = mi0 @ ex0" and un: "own_entries un"
    and ma: "own_entries ma"
    and sub: "\<And>w. set (eparams (own_entry ma w))
               \<subseteq> (\<lambda>k. pth @ k) ` set (Object_keys (mapping_of req w))"
    by (auto simp: level_inv_def)
  note shape = check_key_shape[OF assms(2)[unfolded st st']]
  from shape mi have "\<exists>ex. mi' = mi0 @ ex" by auto
  moreover from shape un have "own_entries un'"
    by (auto intro: own_entries_append own_entries_push)
  moreover from shape ma have "own_entries ma'"
    by (auto intro: own_entries_append own_entries_push)
  moreover have "set (eparams (own_entry ma' w'))
               \<subseteq> (\<lambda>k. pth @ k) ` set (Object_keys (mapping_of req w'))" for w'
  proof -
    from shape consider ex where "ma' = ma @ ex" | "ma' = push_param w (pth @ k) ma" by auto
    then show ?thesis
    proof cases
      case 1
      then show ?thesis using sub[of w'] own_entries_append(2)[OF ma] by simp
    next
      case 2
      show ?thesis
      proof (cases "w' = w")
        case True
        then show ?thesis using 2 sub[of w] own_entries_push(2)[OF ma, of w "pth @ k"] assms(3)
          by auto
      next
        case False
        then show ?thesis using 2 sub[of w'] own_entries_push(3)[OF ma, of w' w "pth @ k"]
          by simp
      qed
    qed
  qed
  ultimately show ?thesis unfolding st' level_inv_def by simp
qed

lemma check_unfold:
  assumes "check env this req parent = Inr r"
  obtains st where
    "forEach
       (\<lambda>st w. forEach
          (check_key env this (\<lambda>fr p. check env this fr (Some p))
             (scope this parent) (path_prefix parent) w (mapping_of req w))
          (Object_keys (mapping_of req w)) st)
       locations
       (missing_pass (scope this parent) (path_prefix parent) req, empty_entries, empty_entries)
     = Inr st"
    and "r = result_of st"
  using assms by (subst (asm) check.simps) (auto split: sum.splits)

lemma check_three_passes:
  "check env this req parent =
     (let pass = (\<lambda>w. forEach
            (check_key env this (\<lambda>fr p. check env this fr (Some p))
               (scope this parent) (path_prefix parent) w (mapping_of req w))
            (Object_keys (mapping_of req w)))
      in case pass Query
             (missing_pass (scope this parent) (path_prefix parent) req, empty_entries, empty_entries) of
           Inl e \<Rightarrow> Inl e
         | Inr s1 \<Rightarrow>
            (case pass Path s1 of
               Inl e \<Rightarrow> Inl e
             | Inr s2 \<Rightarrow>
                (case pass Body s2 of
                   Inl e \<Rightarrow> Inl e
                 | Inr s3 \<Rightarrow> Inr (result_of s3))))"
  by (subst check.simps) (simp add: locations_def Let_def split: sum.splits)

lemma check_level_inv:
  assumes "check env this req parent = Inr r"
  shows "level_inv (missing_pass (scope this parent) (path_prefix parent) req)
           (path_prefix parent) req (missing r, unknown r, malformed r)"
proof -
  let ?mi0 = "missing_pass (scope this parent) (path_prefix parent) req"
  let ?inv = "level_inv ?mi0 (path_prefix parent) req"
  from assms obtain st where run: "forEach
       (\<lambda>st w. forEach
          (check_key env this (\<lambda>fr p. check env this fr (Some p))
             (scope this parent) (path_prefix parent) w (mapping_of req w))
          (Object_keys (mapping_of req w)) st)
       locations (?mi0, empty_entries, empty_entries) = Inr st"
    and r: "r = result_of st"
    by (rule check_unfold)
  have init: "?inv (?mi0, empty_entries, empty_entries)"
  proof -
    have "eparams (own_entry empty_entries w) = []" for w
      by (cases w) (simp_all add: own_entry_def empty_entries_def locations_def)
    then show ?thesis
      by (simp add: level_inv_def own_entries_initial)
  qed
  have "?inv st"
  proof (rule forEach_invariant[where P = "?inv", OF run init])
    fix w a b
    assume "?inv a" and inner: "forEach
          (check_key env this (\<lambda>fr p. check env this fr (Some p))
             (scope this parent) (path_prefix parent) w (mapping_of req w))
          (Object_keys (mapping_of req w)) a = Inr b"
    show "?inv b"
      by (rule forEach_invariant[where P = "?inv", OF inner \<open>?inv a\<close>]) (rule level_inv_step)
  qed
  then show ?thesis
    unfolding r by (cases st) (simp add: result_of_def Let_def)
qed

lemma check_own_missing:
  assumes "check env this req parent = Inr r"
  shows "own_entry (missing r) w =
     \<lparr>ewhere = w,
      eparams = map (\<lambda>p. path_prefix parent @ p)
        (filter (\<lambda>r. r \<notin> set (Object_keys (mapping_of req w)))
           (required_names (scope this parent) w))\<rparr>"
proof -
  from check_level_inv[OF assms] obtain ex where
    "missing r = missing_pass (scope this parent) (path_prefix parent) req @ ex"
    by (auto simp: level_inv_def)
  then show ?thesis
    by (simp add: own_entries_append(2)[OF own_entries_initial(2)] own_entry_missing_pass)
qed

lemma check_own_malformed:
  assumes "check env this req parent = Inr r"
  shows "set (eparams (own_entry (malformed r) w))
           \<subseteq> (\<lambda>k. path_prefix parent @ k) ` set (Object_keys (mapping_of req w))"
  using check_level_inv[OF assms] by (simp add: level_inv_def)

lemma check_own_entries:
  assumes "check env this req parent = Inr r"
  shows "own_entries (missing r)" and "own_entries (unknown r)" and "own_entries (malformed r)"
proof -
  from check_level_inv[OF assms] obtain ex where
    mi: "missing r = missing_pass (scope this parent) (path_prefix parent) req @ ex"
    and rest: "own_entries (unknown r)" "own_entries (malformed r)"
    by (auto simp: level_inv_def)
  show "own_entries (missing r)"
    unfolding mi by (rule own_entries_append(1)[OF own_entries_initial(2)])
  show "own_entries (unknown r)" and "own_entries (malformed r)"
    using rest by simp_all
qed


lemma not_already_missing_present:
  assumes "k \<in> set (Object_keys (mapping_of req w))"
  shows "\<not> already_missing w (pth @ k) (missing_pass defs pth req, un, ma)"
  using assms by (auto simp: already_missing_def missing_pass_def locations_def)

subsection \<open>Nested requests\<close>

lemma input_of_fake_req:
  "input_of (fake_req w v) w' = (if w' = w \<and> w \<noteq> Path then v else Undefined)"
  by (cases w; cases w') (simp_all add: empty_req_def)

lemma keys_fake_req_elsewhere:
  "w' \<noteq> w \<Longrightarrow> Object_keys (mapping_of (fake_req w v) w') = []"
  by (simp add: mapping_of_def input_of_fake_req or_empty_def)

declare fake_req.simps [simp del]

subsection \<open>Unknown keys\<close>

lemma unknown_has_step:
  assumes "level_inv mi0 pth req st" and "unknown_has w n st"
    and "check_key env this rec defs pth w2 prms st k2 = Inr st'"
  shows "unknown_has w n st'"
proof -
  obtain mi un ma where st: "st = (mi, un, ma)" by (cases st)
  obtain mi' un' ma' where st': "st' = (mi', un', ma')" by (cases st')
  from assms(1) st have un: "own_entries un"
    by (simp add: level_inv_def)
  from check_key_shape[OF assms(3)[unfolded st st']]
  consider ex where "un' = un @ ex" | "un' = push_param w2 (pth @ k2) un" by auto
  then show ?thesis
  proof cases
    case 1
    then show ?thesis
      using assms(2) own_entries_append(2)[OF un] by (simp add: unknown_has_def st st')
  next
    case 2
    then show ?thesis
      using assms(2) own_entries_push(2)[OF un, of w2 "pth @ k2"]
        own_entries_push(3)[OF un, of w w2 "pth @ k2"]
      by (cases "w = w2") (auto simp: unknown_has_def st st')
  qed
qed

lemma unknown_has_established:
  assumes "level_inv mi0 pth req st"
    and "check_key env this rec defs pth w prms st k = Inr st'"
    and "strict (options this) = Some True"
    and "find (\<lambda>d. name d = k) (filter (\<lambda>d. in_loc d = w) defs) = None"
  shows "unknown_has w (pth @ k) st'"
proof -
  obtain mi un ma where st: "st = (mi, un, ma)" by (cases st)
  from assms(1) st have un: "own_entries un"
    by (simp add: level_inv_def)
  from assms(2-4) have "st' = (mi, push_param w (pth @ k) un, ma)"
    by (simp add: check_key_def flag_unknown_def st)
  then show ?thesis
    using own_entries_push(2)[OF un, of w "pth @ k"] by (simp add: unknown_has_def)
qed

lemma check_unknown_recorded:
  assumes run: "check env this req parent = Inr r"
    and strict: "strict (options this) = Some True"
    and key: "k \<in> set (Object_keys (mapping_of req w))"
    and nodef: "find (\<lambda>d. name d = k) (filter (\<lambda>d. in_loc d = w) (scope this parent)) = None"
  shows "path_prefix parent @ k \<in> set (eparams (own_entry (unknown r) w))"
proof -
  let ?mi0 = "missing_pass (scope this parent) (path_prefix parent) req"
  let ?inv = "level_inv ?mi0 (path_prefix parent) req"
  let ?has = "unknown_has w (path_prefix parent @ k)"
  let ?step = "\<lambda>w. check_key env this (\<lambda>fr p. check env this fr (Some p))
             (scope this parent) (path_prefix parent) w (mapping_of req w)"
  from run obtain st where loop: "forEach
       (\<lambda>st w. forEach (?step w) (Object_keys (mapping_of req w)) st)
       locations (?mi0, empty_entries, empty_entries) = Inr st"
    and r: "r = result_of st"
    by (rule check_unfold)
  have init: "?inv (?mi0, empty_entries, empty_entries)"
  proof -
    have "eparams (own_entry empty_entries w') = []" for w'
      by (cases w') (simp_all add: own_entry_def empty_entries_def locations_def)
    then show ?thesis
      by (simp add: level_inv_def own_entries_initial)
  qed
  have inner_inv: "?inv b"
    if "?inv a" and "forEach (?step w') (Object_keys (mapping_of req w')) a = Inr b" for w' a b
    by (rule forEach_invariant[where P = "?inv", OF that(2) that(1)]) (rule level_inv_step)
  have inner_keep: "?has b"
    if "?inv a" and "?has a" and "forEach (?step w') (Object_keys (mapping_of req w')) a = Inr b"
    for w' a b
  proof -
    have "?inv b \<and> ?has b"
    proof (rule forEach_invariant[where P = "\<lambda>s. ?inv s \<and> ?has s", OF that(3)])
      show "?inv a \<and> ?has a" using that by simp
    next
      fix x s t
      assume "x \<in> set (Object_keys (mapping_of req w'))" and "?inv s \<and> ?has s"
        and "?step w' s x = Inr t"
      then show "?inv t \<and> ?has t"
        by (auto intro: level_inv_step unknown_has_step)
    qed
    then show ?thesis by simp
  qed
  have inner_est: "?has b"
    if "?inv a" and "forEach (?step w) (Object_keys (mapping_of req w)) a = Inr b" for a b
  proof (rule forEach_reaches[where P = "?inv" and Q = "?has", OF that(2) key that(1)])
    show "\<And>y a b. y \<in> set (Object_keys (mapping_of req w)) \<Longrightarrow> ?inv a \<Longrightarrow> ?step w a y = Inr b \<Longrightarrow> ?inv b"
      by (rule level_inv_step)
    show "\<And>a b. ?inv a \<Longrightarrow> ?step w a k = Inr b \<Longrightarrow> ?has b"
      by (rule unknown_has_established[OF _ _ strict nodef])
    show "\<And>y a b. y \<in> set (Object_keys (mapping_of req w)) \<Longrightarrow> ?inv a \<Longrightarrow> ?has a
            \<Longrightarrow> ?step w a y = Inr b \<Longrightarrow> ?has b"
      by (rule unknown_has_step)
  qed
  have "w \<in> set locations"
    by (cases w) (simp_all add: locations_def)
  have "?has st"
  proof (rule forEach_reaches[where P = "?inv" and Q = "?has", OF loop \<open>w \<in> set locations\<close> init])
    show "\<And>y a b. y \<in> set locations \<Longrightarrow> ?inv a
            \<Longrightarrow> forEach (?step y) (Object_keys (mapping_of req y)) a = Inr b \<Longrightarrow> ?inv b"
      by (rule inner_inv)
    show "\<And>a b. ?inv a \<Longrightarrow> forEach (?step w) (Object_keys (mapping_of req w)) a = Inr b \<Longrightarrow> ?has b"
      by (rule inner_est)
    show "\<And>y a b. y \<in> set locations \<Longrightarrow> ?inv a \<Longrightarrow> ?has a
            \<Longrightarrow> forEach (?step y) (Object_keys (mapping_of req y)) a = Inr b \<Longrightarrow> ?has b"
      by (rule inner_keep)
  qed
  then show ?thesis
    unfolding r by (cases st) (simp add: unknown_has_def result_of_def Let_def)
qed

lemma input_of_with_input:
  "input_of (with_input req w v) w' = (if w' = w then v else input_of req w')"
  by (cases w; cases w') simp_all

lemma map_of_filter_other:
  "x \<noteq> k \<Longrightarrow> map_of (filter (\<lambda>p. fst p \<noteq> k) kvs) x = map_of kvs x"
  by (induction kvs) auto

lemma check_key_prms:
  "prop_of prms nm = prop_of prms' nm
     \<Longrightarrow> check_key env this rec defs pth w prms st nm = check_key env this rec defs pth w prms' st nm"
  unfolding check_key_def by (simp only:)

lemma check_key_undeclared:
  assumes "strict (options this) \<noteq> Some True"
    and "find (\<lambda>d. name d = k) (filter (\<lambda>d. in_loc d = w) defs) = None"
  shows "check_key env this rec defs pth w prms st k = Inr st"
  using assms by (simp add: check_key_def)

lemma forEach_skip_undeclared:
  assumes "strict (options this) \<noteq> Some True"
    and "find (\<lambda>d. name d = k) (filter (\<lambda>d. in_loc d = w) defs) = None"
  shows "forEach (check_key env this rec defs pth w (Obj (filter (\<lambda>p. fst p \<noteq> k) kvs)))
           (filter (\<lambda>x. x \<noteq> k) ks) st
       = forEach (check_key env this rec defs pth w (Obj kvs)) ks st"
proof (induction ks arbitrary: st)
  case Nil
  then show ?case by simp
next
  case (Cons x ks)
  show ?case
  proof (cases "x = k")
    case True
    then show ?thesis
      using Cons.IH check_key_undeclared[OF assms] by simp
  next
    case False
    then have "check_key env this rec defs pth w (Obj (filter (\<lambda>p. fst p \<noteq> k) kvs)) st x
             = check_key env this rec defs pth w (Obj kvs) st x"
      by (intro check_key_prms) (simp add: prop_of_def map_of_filter_other)
    then show ?thesis
      using False Cons.IH by (simp split: sum.splits)
  qed
qed

lemma check_ignores_undeclared_key:
  assumes nonstrict: "strict (options this) \<noteq> Some True"
    and obj: "input_of req w = Obj kvs"
    and nodef: "find (\<lambda>d. name d = k) (filter (\<lambda>d. in_loc d = w) (scope this parent)) = None"
  shows "check env this (with_input req w (Obj (filter (\<lambda>p. fst p \<noteq> k) kvs))) parent
       = check env this req parent"
proof -
  let ?kvs' = "filter (\<lambda>p. fst p \<noteq> k) kvs"
  let ?req' = "with_input req w (Obj ?kvs')"
  let ?defs = "scope this parent"
  let ?pth = "path_prefix parent"
  let ?rec = "\<lambda>fr p. check env this fr (Some p)"
  have here: "mapping_of req w = Obj kvs" "mapping_of ?req' w = Obj ?kvs'"
    using obj by (simp_all add: mapping_of_def or_empty_def input_of_with_input)
  have there: "mapping_of ?req' w' = mapping_of req w'" if "w' \<noteq> w" for w'
    using that by (simp add: mapping_of_def input_of_with_input)
  have keys': "map fst ?kvs' = filter (\<lambda>x. x \<noteq> k) (map fst kvs)"
    by (induction kvs) auto
  have not_k: "r \<noteq> k" if "r \<in> set (required_names ?defs w)" for r
    using that nodef by (auto simp: required_names_def find_None_iff)
  have missing_eq: "missing_pass ?defs ?pth ?req' = missing_pass ?defs ?pth req"
  proof -
    have "filter (\<lambda>r. r \<notin> set (Object_keys (mapping_of ?req' w'))) (required_names ?defs w')
        = filter (\<lambda>r. r \<notin> set (Object_keys (mapping_of req w'))) (required_names ?defs w')" for w'
    proof (cases "w' = w")
      case True
      show ?thesis
        unfolding True here by (rule filter_cong) (auto simp: keys' dest: not_k)
    next
      case False
      then show ?thesis by (simp add: there)
    qed
    then show ?thesis by (simp add: missing_pass_def)
  qed
  have inner_eq: "forEach (check_key env this ?rec ?defs ?pth w' (mapping_of ?req' w'))
                    (Object_keys (mapping_of ?req' w')) st
                = forEach (check_key env this ?rec ?defs ?pth w' (mapping_of req w'))
                    (Object_keys (mapping_of req w')) st" for w' st
  proof (cases "w' = w")
    case True
    show ?thesis
      unfolding True here using forEach_skip_undeclared[OF nonstrict nodef]
      by (simp add: keys')
  next
    case False
    then show ?thesis by (simp add: there)
  qed
  show ?thesis
    by (simp add: check.simps[of env this ?req' parent] check.simps[of env this req parent]
        missing_eq inner_eq)
qed

subsection \<open>When \<open>check\<close> returns and when it aborts\<close>

lemma forEach_aborts:
  assumes "forEach f xs s = Inl e"
  shows "\<exists>x \<in> set xs. \<exists>a. f a x = Inl e"
  using assms
proof (induction xs arbitrary: s)
  case Nil
  then show ?case by simp
next
  case (Cons x xs)
  show ?case
  proof (cases "f s x")
    case (Inl e')
    with Cons.prems show ?thesis by auto
  next
    case (Inr s')
    with Cons.prems have "forEach f xs s' = Inl e" by simp
    from Cons.IH[OF this] show ?thesis by auto
  qed
qed

lemma forEach_split:
  assumes "forEach f (xs @ x # ys) s = Inr t"
  shows "\<exists>a b. forEach f xs s = Inr a \<and> f a x = Inr b \<and> forEach f ys b = Inr t"
  using assms
proof (induction xs arbitrary: s)
  case Nil
  then show ?case by (auto split: sum.splits)
next
  case (Cons y xs)
  from Cons.prems obtain s' where "f s y = Inr s'" and "forEach f (xs @ x # ys) s' = Inr t"
    by (auto split: sum.splits)
  with Cons.IH[of s'] show ?case by auto
qed

lemma forEach_aborts_at:
  assumes "forEach f xs s = Inl e"
  shows "\<exists>ys x zs a. xs = ys @ x # zs \<and> forEach f ys s = Inr a \<and> f a x = Inl e"
  using assms
proof (induction xs arbitrary: s)
  case Nil
  then show ?case by simp
next
  case (Cons x xs)
  show ?case
  proof (cases "f s x")
    case (Inl e')
    with Cons.prems have "f s x = Inl e" by simp
    then have "x # xs = [] @ x # xs \<and> forEach f [] s = Inr s \<and> f s x = Inl e"
      by simp
    then show ?thesis by blast
  next
    case (Inr s')
    with Cons.prems have "forEach f xs s' = Inl e" by simp
    from Cons.IH[OF this] obtain ys y zs a where
      "xs = ys @ y # zs" "forEach f ys s' = Inr a" "f a y = Inl e"
      by blast
    with Inr have "x # xs = (x # ys) @ y # zs \<and> forEach f (x # ys) s = Inr a \<and> f a y = Inl e"
      by simp
    then show ?thesis by blast
  qed
qed

lemma check_key_aborts:
  assumes "check_key env this (\<lambda>fr p. check env this fr (Some p)) defs pth w prms st k = Inl e"
  shows "\<exists>d. find (\<lambda>d. name d = k) (filter (\<lambda>d. in_loc d = w) defs) = Some d
           \<and> key_outcome env this k d (prop_of prms k) = Some e"
proof (cases "find (\<lambda>d. name d = k) (filter (\<lambda>d. in_loc d = w) defs)")
  case None
  with assms show ?thesis by (simp add: check_key_def)
next
  case (Some d)
  with assms have "key_outcome env this k d (prop_of prms k) = Some e"
    by (auto simp: check_key_def key_outcome_def split: if_splits sum.splits option.splits)
  with Some show ?thesis by simp
qed

lemma check_aborts:
  assumes "check env this req parent = Inl e"
  shows "\<exists>w k d. k \<in> set (Object_keys (mapping_of req w))
           \<and> find (\<lambda>d. name d = k) (filter (\<lambda>d. in_loc d = w) (scope this parent)) = Some d
           \<and> key_outcome env this k d (prop_of (mapping_of req w) k) = Some e"
proof -
  let ?step = "\<lambda>w. check_key env this (\<lambda>fr p. check env this fr (Some p))
             (scope this parent) (path_prefix parent) w (mapping_of req w)"
  from assms have "forEach (\<lambda>st w. forEach (?step w) (Object_keys (mapping_of req w)) st)
       locations
       (missing_pass (scope this parent) (path_prefix parent) req, empty_entries, empty_entries)
     = Inl e"
    by (subst (asm) check.simps) (auto split: sum.splits)
  from forEach_aborts[OF this] obtain w a where
    "forEach (?step w) (Object_keys (mapping_of req w)) a = Inl e"
    by blast
  from forEach_aborts[OF this] obtain k b where
    "k \<in> set (Object_keys (mapping_of req w))" and "?step w b k = Inl e"
    by blast
  with check_key_aborts[of env this "scope this parent" "path_prefix parent" w "mapping_of req w" b k e]
  show ?thesis by blast
qed

lemma already_missing_grows:
  assumes "already_missing w n (mi, un, ma)"
  shows "already_missing w n (mi @ ex, un', ma')"
  using assms by (auto simp: already_missing_def)

lemma check_reaches:
  fixes env this req parent
  defines "mi0 \<equiv> missing_pass (scope this parent) (path_prefix parent) req"
    and "step \<equiv> \<lambda>w. check_key env this (\<lambda>fr p. check env this fr (Some p))
             (scope this parent) (path_prefix parent) w (mapping_of req w)"
  assumes run: "check env this req parent = Inr r"
    and key: "k \<in> set (Object_keys (mapping_of req w))"
    and est: "\<And>a b. level_inv mi0 (path_prefix parent) req a \<Longrightarrow> step w a k = Inr b \<Longrightarrow> Q b"
    and keep: "\<And>w' k' a b. level_inv mi0 (path_prefix parent) req a \<Longrightarrow> Q a
                 \<Longrightarrow> step w' a k' = Inr b \<Longrightarrow> Q b"
  shows "Q (missing r, unknown r, malformed r)"
proof -
  let ?inv = "level_inv mi0 (path_prefix parent) req"
  from run obtain st where loop: "forEach
       (\<lambda>st w. forEach (step w) (Object_keys (mapping_of req w)) st)
       locations (mi0, empty_entries, empty_entries) = Inr st"
    and r: "r = result_of st"
    unfolding mi0_def step_def by (rule check_unfold)
  have init: "?inv (mi0, empty_entries, empty_entries)"
  proof -
    have "eparams (own_entry empty_entries w') = []" for w'
      by (cases w') (simp_all add: own_entry_def empty_entries_def locations_def)
    then show ?thesis
      by (simp add: level_inv_def own_entries_initial mi0_def)
  qed
  have step_inv: "?inv b"
    if "y \<in> set (Object_keys (mapping_of req w'))" "?inv a" "step w' a y = Inr b" for w' y a b
    using that(2) that(3)[unfolded step_def] that(1) unfolding mi0_def by (rule level_inv_step)
  have inner_inv: "?inv b"
    if "?inv a" and "forEach (step w') (Object_keys (mapping_of req w')) a = Inr b" for w' a b
    by (rule forEach_invariant[where P = "?inv", OF that(2) that(1)]) (rule step_inv)
  have inner_keep: "Q b"
    if "?inv a" and "Q a" and "forEach (step w') (Object_keys (mapping_of req w')) a = Inr b"
    for w' a b
  proof -
    have "?inv b \<and> Q b"
    proof (rule forEach_invariant[where P = "\<lambda>s. ?inv s \<and> Q s", OF that(3)])
      show "?inv a \<and> Q a" using that by simp
    next
      fix x s t
      assume "x \<in> set (Object_keys (mapping_of req w'))" and "?inv s \<and> Q s"
        and "step w' s x = Inr t"
      then show "?inv t \<and> Q t"
        using step_inv keep by blast
    qed
    then show ?thesis by simp
  qed
  have inner_est: "Q b"
    if "?inv a" and "forEach (step w) (Object_keys (mapping_of req w)) a = Inr b" for a b
  proof (rule forEach_reaches[where P = "?inv" and Q = Q, OF that(2) key that(1)])
    show "\<And>y a b. y \<in> set (Object_keys (mapping_of req w)) \<Longrightarrow> ?inv a \<Longrightarrow> step w a y = Inr b \<Longrightarrow> ?inv b"
      by (rule step_inv)
    show "\<And>a b. ?inv a \<Longrightarrow> step w a k = Inr b \<Longrightarrow> Q b"
      by (rule est)
    show "\<And>y a b. y \<in> set (Object_keys (mapping_of req w)) \<Longrightarrow> ?inv a \<Longrightarrow> Q a
            \<Longrightarrow> step w a y = Inr b \<Longrightarrow> Q b"
      by (rule keep)
  qed
  have "w \<in> set locations"
    by (cases w) (simp_all add: locations_def)
  have "Q st"
  proof (rule forEach_reaches[where P = "?inv" and Q = Q, OF loop \<open>w \<in> set locations\<close> init])
    show "\<And>y a b. y \<in> set locations \<Longrightarrow> ?inv a
            \<Longrightarrow> forEach (step y) (Object_keys (mapping_of req y)) a = Inr b \<Longrightarrow> ?inv b"
      by (rule inner_inv)
    show "\<And>a b. ?inv a \<Longrightarrow> forEach (step w) (Object_keys (mapping_of req w)) a = Inr b \<Longrightarrow> Q b"
      by (rule inner_est)
    show "\<And>y a b. y \<in> set locations \<Longrightarrow> ?inv a \<Longrightarrow> Q a
            \<Longrightarrow> forEach (step y) (Object_keys (mapping_of req y)) a = Inr b \<Longrightarrow> Q b"
      by (rule inner_keep)
  qed
  then show ?thesis
    unfolding r by (cases st) (simp add: result_of_def Let_def)
qed

lemma malformed_kept:
  assumes "level_inv mi0 pth req (mi, un, ma)"
    and "n \<in> set (eparams (own_entry ma w))"
    and "check_key env this rec defs pth w2 prms (mi, un, ma) k2 = Inr (mi', un', ma')"
  shows "n \<in> set (eparams (own_entry ma' w))"
proof -
  from assms(1) have ma: "own_entries ma"
    by (simp add: level_inv_def)
  from check_key_shape[OF assms(3)]
  consider ex where "ma' = ma @ ex" | "ma' = push_param w2 (pth @ k2) ma" by auto
  then show ?thesis
  proof cases
    case 1
    then show ?thesis
      using assms(2) own_entries_append(2)[OF ma] by simp
  next
    case 2
    then show ?thesis
      using assms(2) own_entries_push(2)[OF ma, of w2 "pth @ k2"]
        own_entries_push(3)[OF ma, of w w2 "pth @ k2"]
      by (cases "w = w2") auto
  qed
qed

lemma check_validated:
  assumes run: "check env this req parent = Inr r"
    and key: "k \<in> set (Object_keys (mapping_of req w))"
    and found: "find (\<lambda>d. name d = k) (filter (\<lambda>d. in_loc d = w) (scope this parent)) = Some d"
    and shown: "\<not> reported_missing r w (path_prefix parent @ k)"
  shows "key_outcome env this k d (prop_of (mapping_of req w) k) = None"
    and "malformed_value env d (prop_of (mapping_of req w) k) = Inr True
           \<Longrightarrow> path_prefix parent @ k \<in> set (eparams (own_entry (malformed r) w))"
proof -
  let ?n = "path_prefix parent @ k"
  let ?v = "prop_of (mapping_of req w) k"
  let ?Q = "\<lambda>st. already_missing w ?n st
      \<or> (key_outcome env this k d ?v = None
         \<and> (malformed_value env d ?v = Inr True
              \<longrightarrow> ?n \<in> set (eparams (own_entry (snd (snd st)) w))))"
  have "?Q (missing r, unknown r, malformed r)"
  proof (rule check_reaches[where Q = ?Q, OF run key])
    fix a b
    assume inv: "level_inv (missing_pass (scope this parent) (path_prefix parent) req)
        (path_prefix parent) req a"
      and step: "check_key env this (\<lambda>fr p. check env this fr (Some p))
             (scope this parent) (path_prefix parent) w (mapping_of req w) a k = Inr b"
    obtain mi un ma where a: "a = (mi, un, ma)" by (cases a)
    from inv a have ma: "own_entries ma"
      by (simp add: level_inv_def)
    show "?Q b"
    proof (cases "already_missing w ?n a")
      case True
      with step found have "b = a" by (simp add: check_key_def)
      with True show ?thesis by simp
    next
      case False
      from found have w: "in_loc d = w"
        by (auto dest: find_Some_holds find_Some_in_set)
      from step found False obtain bad where
        bad: "malformed_value env d ?v = Inr bad"
        by (auto simp: check_key_def split: sum.splits)
      show ?thesis
      proof (cases bad)
        case True
        with step found False bad have "b = flag_malformed w ?n a"
          by (simp add: check_key_def)
        then have "?n \<in> set (eparams (own_entry (snd (snd b)) w))"
          using own_entries_push(2)[OF ma, of w ?n] by (simp add: a flag_malformed_def)
        moreover from bad True have "key_outcome env this k d ?v = None"
          by (auto simp: key_outcome_def malformed_value_def split: ptype.splits if_splits sum.splits)
        ultimately show ?thesis by simp
      next
        case notbad: False
        with step found False bad w have "key_outcome env this k d ?v = None"
          by (auto simp: check_key_def key_outcome_def split: if_splits sum.splits option.splits)
        with bad notbad show ?thesis by simp
      qed
    qed
  next
    fix w' k' a b
    assume inv: "level_inv (missing_pass (scope this parent) (path_prefix parent) req)
        (path_prefix parent) req a"
      and Q: "?Q a"
      and step: "check_key env this (\<lambda>fr p. check env this fr (Some p))
             (scope this parent) (path_prefix parent) w' (mapping_of req w') a k' = Inr b"
    obtain mi un ma where a: "a = (mi, un, ma)" by (cases a)
    obtain mi' un' ma' where b: "b = (mi', un', ma')" by (cases b)
    from check_key_shape[OF step[unfolded a b]] obtain ex where mi': "mi' = mi @ ex"
      by blast
    show "?Q b"
    proof (cases "already_missing w ?n a")
      case True
      then show ?thesis
        unfolding a b mi' by (simp add: already_missing_grows)
    next
      case False
      with Q have out: "key_outcome env this k d ?v = None"
        and fl: "malformed_value env d ?v = Inr True \<longrightarrow> ?n \<in> set (eparams (own_entry ma w))"
        by (simp_all add: a)
      have "?n \<in> set (eparams (own_entry ma' w))" if "malformed_value env d ?v = Inr True"
        using malformed_kept[OF inv[unfolded a] _ step[unfolded a b]] fl that by simp
      with out show ?thesis by (simp add: b)
    qed
  qed
  with shown show "key_outcome env this k d ?v = None"
    and "malformed_value env d ?v = Inr True \<Longrightarrow> ?n \<in> set (eparams (own_entry (malformed r) w))"
    by (simp_all add: reported_missing_def already_missing_def)
qed
section \<open>Facts about \<open>values\<close>\<close>

lemma nullish_simps [simp]:
  "nullish Undefined" "nullish Null" "\<not> nullish (Bool b)" "\<not> nullish (Num n)"
  "\<not> nullish (Str s)" "\<not> nullish (Arr m kvs)" "\<not> nullish (Obj kvs)"
  "\<not> nullish (DateObj t kvs)" "\<not> nullish (Intrinsic h)"
  by (simp_all add: nullish_def)

subsection \<open>Property lists\<close>

lemma map_of_replace_value:
  "map_of (replace_value k v kvs) k'
     = (if k' = k \<and> map_of kvs k \<noteq> None then Some v else map_of kvs k')"
  by (induction kvs) auto

lemma replace_value_absent: "map_of kvs k = None \<Longrightarrow> replace_value k v kvs = kvs"
  by (induction kvs) (auto split: if_splits)

lemma replace_value_same: "map_of kvs k = Some v \<Longrightarrow> replace_value k v kvs = kvs"
  by (induction kvs) (auto split: if_splits)

lemma map_of_insert_index:
  "k \<notin> set (map fst kvs)
     \<Longrightarrow> map_of (insert_index i k v kvs) k' = (if k' = k then Some v else map_of kvs k')"
  by (induction kvs) (auto split: option.splits)

lemma map_of_append_new:
  "k \<notin> set (map fst kvs) \<Longrightarrow> map_of (kvs @ [(k, v)]) k' = (if k' = k then Some v else map_of kvs k')"
  by (induction kvs) auto

lemma own_key_iff:
  "k \<in> set (map fst kvs) \<longleftrightarrow> map_of kvs k \<noteq> None"
  "k \<in> fst ` set kvs \<longleftrightarrow> map_of kvs k \<noteq> None"
  by (simp_all add: map_of_eq_None_iff)

lemma map_of_assign:
  "map_of (assign k v kvs) k' = (if k' = k then Some v else map_of kvs k')"
proof (cases "k \<in> set (map fst kvs)")
  case True
  then show ?thesis by (simp add: assign_def map_of_replace_value own_key_iff)
next
  case False
  then show ?thesis
    by (simp add: assign_def map_of_insert_index map_of_append_new split: option.splits
        del: map_of_append)
qed

lemma set_own_Inr:
  assumes "set_own env kd kvs k x = Inr kvs'"
  shows "map_of kvs' k'
       = (if k' = k \<and> (k \<noteq> ''__proto__'' \<or> map_of kvs k \<noteq> None) then Some x else map_of kvs k')"
  using assms by (auto simp: set_own_def map_of_assign own_key_iff split: if_splits)

lemma set_own_primitive:
  assumes "\<not> is_object x" and "x \<noteq> Null"
  shows "\<exists>kvs'. set_own env kd kvs k x = Inr kvs'"
  using assms by (simp add: set_own_def)

lemma set_own_plain_key:
  assumes "k \<noteq> ''__proto__''"
  shows "set_own env kd kvs k x = Inr (assign k x kvs)"
  using assms by (simp add: set_own_def)

subsection \<open>The request while \<open>values\<close> runs\<close>

lemma put_back_same: "put_back p k (chain_prop env p k) = p"
proof -
  have "replace_value k (case map_of kvs k of None \<Rightarrow> d | Some x \<Rightarrow> x) kvs = kvs" for kvs d
    by (cases "map_of kvs k") (simp_all add: replace_value_absent replace_value_same)
  then show ?thesis
    by (cases p) (simp_all add: chain_prop_def)
qed

lemma kind_of_put_back [simp]: "kind_of (put_back p k v) = kind_of p"
  by (cases p) simp_all

lemma nullish_put_back [simp]: "nullish (put_back p k v) = nullish p"
  by (cases p) simp_all

lemma own_prop_put_back_other:
  assumes "k' \<noteq> k"
  shows "own_prop (put_back p k v) k' = own_prop p k'"
  using assms by (cases p) (simp_all add: map_of_replace_value)

lemma chain_prop_put_back_other:
  assumes "k' \<noteq> k"
  shows "chain_prop env (put_back p k v) k' = chain_prop env p k'"
  using assms by (simp add: chain_prop_def own_prop_put_back_other split: option.splits)

lemma with_input_same: "with_input req w (input_of req w) = req"
  by (cases w) simp_all

lemma output_of_with_output:
  "output_of (with_output obj w m) w' = (if w' = w then m else output_of obj w')"
  by (cases w; cases w') simp_all

lemma output_of_empty_result: "output_of empty_result w = Obj []"
  by (cases w) (simp_all add: empty_result_def)

subsection \<open>One definition\<close>

lemma parseValue_nullish:
  "nullish v \<Longrightarrow> parseValue env v d = Inr (default_of d, v)"
  by (subst parseValue.simps) simp

lemma parseValue_boolean:
  assumes "ptype d = TBoolean" and "isArray d \<noteq> Some True" and "\<not> nullish v"
  shows "parseValue env v d = Inr (Bool (v \<in> set canonical_true), v)"
  using assms by (subst parseValue.simps) simp

lemma parseValue_string:
  assumes "ptype d = TString" and "isArray d \<noteq> Some True" and "\<not> nullish v"
  shows "parseValue env v d = Inr (v, v)"
  using assms by (subst parseValue.simps) simp

lemma parseValue_raw_unchanged:
  assumes "parseValue env v d = Inr (r, v')" and "\<not> overwritten_in_place d v"
  shows "v' = v"
proof (cases "nullish v")
  case True
  then show ?thesis using assms(1) by (simp add: parseValue_nullish)
next
  case False
  show ?thesis
  proof (cases "ptype d = TObject")
    case notobj: False
    then show ?thesis using assms(1) False
      by (subst (asm) parseValue.simps)
        (cases "ptype d"; auto split: if_splits sum.splits)
  next
    case obj: True
    show ?thesis
    proof (cases "\<exists>s. v = Str s")
      case True
      then show ?thesis using assms(1) False obj
        by (subst (asm) parseValue.simps) (auto split: sum.splits)
    next
      case nostr: False
      with assms(2) False obj have "(case properties d of None \<Rightarrow> [] | Some ps \<Rightarrow> ps) = []"
        by (auto simp: overwritten_in_place_def split: option.splits jsval.splits)
      then show ?thesis using assms(1) False obj nostr
        by (subst (asm) parseValue.simps) (cases v; auto)
    qed
  qed
qed

lemma parseValue_string_raw:
  assumes "parseValue env (Str s) d = Inr (r, v')"
  shows "v' = Str s"
  using assms by (rule parseValue_raw_unchanged) (simp add: overwritten_in_place_def)

lemma values_step_Inr:
  assumes "values_step env (obj, req) d = Inr (obj', req')"
  obtains v raw' where
    "\<not> nullish (input_of req (in_loc d))"
    "parseValue env (chain_prop env (input_of req (in_loc d)) (name d)) d = Inr (v, raw')"
    "(if \<not> nullish v then store_value env obj (in_loc d) (name d) v else Inr obj) = Inr obj'"
    "req' = with_input req (in_loc d) (put_back (input_of req (in_loc d)) (name d) raw')"
  using assms unfolding values_step_def
  by (auto simp: get_prop_def split: sum.splits if_splits)

lemma store_value_Inr:
  assumes "store_value env obj w k v = Inr obj'"
    and "output_of obj w = Obj kvs"
  shows "\<exists>kvs'. output_of obj' w = Obj kvs'
           \<and> (\<forall>k'. map_of kvs' k'
                  = (if k' = k \<and> (k \<noteq> ''__proto__'' \<or> map_of kvs k \<noteq> None) then Some v
                     else map_of kvs k'))
           \<and> (\<forall>w'. w' \<noteq> w \<longrightarrow> output_of obj' w' = output_of obj w')"
proof -
  from assms obtain kvs' where own: "set_own env KObject kvs k v = Inr kvs'"
    and obj': "obj' = with_output obj w (Obj kvs')"
    by (auto simp: store_value_def split: sum.splits)
  have "output_of obj' w = Obj kvs'"
    by (simp add: obj' output_of_with_output)
  moreover have "map_of kvs' k'
           = (if k' = k \<and> (k \<noteq> ''__proto__'' \<or> map_of kvs k \<noteq> None) then Some v else map_of kvs k')"
    for k'
    using own by (rule set_own_Inr)
  moreover have "output_of obj' w' = output_of obj w'" if "w' \<noteq> w" for w'
    using that by (simp add: obj' output_of_with_output)
  ultimately show ?thesis by blast
qed

lemma plain_output_empty: "plain_output empty_result"
  by (simp add: plain_output_def output_of_empty_result)

lemma values_step_output:
  assumes step: "values_step env (obj, req) d = Inr (obj', req')"
    and plain: "plain_output obj"
  shows "\<exists>v raw'.
      parseValue env (chain_prop env (input_of req (in_loc d)) (name d)) d = Inr (v, raw')
    \<and> req' = with_input req (in_loc d) (put_back (input_of req (in_loc d)) (name d) raw')
    \<and> plain_output obj'
    \<and> (\<forall>w k. own_prop (output_of obj' w) k
        = (if (w, k) = field_key d \<and> \<not> nullish v \<and> k \<noteq> ''__proto__'' then Some v
           else own_prop (output_of obj w) k))"
proof -
  from step obtain v raw' where
    pv: "parseValue env (chain_prop env (input_of req (in_loc d)) (name d)) d = Inr (v, raw')"
    and st: "(if \<not> nullish v then store_value env obj (in_loc d) (name d) v else Inr obj) = Inr obj'"
    and req': "req' = with_input req (in_loc d) (put_back (input_of req (in_loc d)) (name d) raw')"
    by (rule values_step_Inr)
  have "plain_output obj'
      \<and> (\<forall>w k. own_prop (output_of obj' w) k
        = (if (w, k) = field_key d \<and> \<not> nullish v \<and> k \<noteq> ''__proto__'' then Some v
           else own_prop (output_of obj w) k))"
  proof (cases "nullish v")
    case True
    with st plain show ?thesis by simp
  next
    case False
    from plain obtain kvs where kvs: "output_of obj (in_loc d) = Obj kvs"
      and none: "map_of kvs ''__proto__'' = None"
      by (auto simp: plain_output_def)
    from st False have "store_value env obj (in_loc d) (name d) v = Inr obj'"
      by simp
    from store_value_Inr[OF this kvs] obtain kvs' where here: "output_of obj' (in_loc d) = Obj kvs'"
      and upd: "\<And>k'. map_of kvs' k'
           = (if k' = name d \<and> (name d \<noteq> ''__proto__'' \<or> map_of kvs (name d) \<noteq> None) then Some v
              else map_of kvs k')"
      and there: "\<And>w'. w' \<noteq> in_loc d \<Longrightarrow> output_of obj' w' = output_of obj w'"
      by blast
    have "plain_output obj'"
      unfolding plain_output_def
    proof
      fix w
      show "\<exists>kvs. output_of obj' w = Obj kvs \<and> map_of kvs ''__proto__'' = None"
      proof (cases "w = in_loc d")
        case True
        then show ?thesis using here upd[of "''__proto__''"] none by auto
      next
        case False
        then show ?thesis using there[of w] plain by (simp add: plain_output_def)
      qed
    qed
    moreover have "own_prop (output_of obj' w) k
        = (if (w, k) = field_key d \<and> \<not> nullish v \<and> k \<noteq> ''__proto__'' then Some v
           else own_prop (output_of obj w) k)" for w k
    proof (cases "w = in_loc d")
      case True
      then show ?thesis using here upd[of k] kvs none False
        by (auto simp: field_key_def)
    next
      case no: False
      then show ?thesis using there[of w] by (auto simp: field_key_def)
    qed
    ultimately show ?thesis by simp
  qed
  with pv req' show ?thesis by blast
qed

lemma values_step_input:
  assumes "values_step env (obj, req) d = Inr (obj', req')"
  shows "(w, k) \<noteq> field_key d \<Longrightarrow> chain_prop env (input_of req' w) k = chain_prop env (input_of req w) k"
    and "nullish (input_of req' w) = nullish (input_of req w)"
proof -
  from assms obtain raw' where
    req': "req' = with_input req (in_loc d) (put_back (input_of req (in_loc d)) (name d) raw')"
    by (rule values_step_Inr)
  show "chain_prop env (input_of req' w) k = chain_prop env (input_of req w) k"
    if "(w, k) \<noteq> field_key d"
    using that by (auto simp: req' input_of_with_input field_key_def chain_prop_put_back_other)
  show "nullish (input_of req' w) = nullish (input_of req w)"
    by (simp add: req' input_of_with_input)
qed

subsection \<open>The whole run\<close>

lemma values_run:
  assumes "forEach (values_step env) ds (obj, req) = Inr (obj', req')"
    and "distinct (map field_key ds)"
    and "plain_output obj"
  shows "(\<forall>d \<in> set ds. \<exists>v raw'.
            parseValue env (chain_prop env (input_of req (in_loc d)) (name d)) d = Inr (v, raw')
            \<and> own_prop (output_of obj' (in_loc d)) (name d)
                = (if nullish v \<or> name d = ''__proto__''
                   then own_prop (output_of obj (in_loc d)) (name d) else Some v))
       \<and> (\<forall>w k. (w, k) \<notin> set (map field_key ds) \<longrightarrow>
            own_prop (output_of obj' w) k = own_prop (output_of obj w) k
            \<and> chain_prop env (input_of req' w) k = chain_prop env (input_of req w) k)"
  using assms
proof (induction ds arbitrary: obj req)
  case Nil
  then show ?case by simp
next
  case (Cons d ds)
  from Cons.prems(1) obtain obj1 req1 where
    step: "values_step env (obj, req) d = Inr (obj1, req1)"
    and rest: "forEach (values_step env) ds (obj1, req1) = Inr (obj', req')"
    by (auto split: sum.splits)
  from values_step_output[OF step Cons.prems(3)] obtain v raw' where
    pv: "parseValue env (chain_prop env (input_of req (in_loc d)) (name d)) d = Inr (v, raw')"
    and plain1: "plain_output obj1"
    and out1: "\<And>w k. own_prop (output_of obj1 w) k
        = (if (w, k) = field_key d \<and> \<not> nullish v \<and> k \<noteq> ''__proto__'' then Some v
           else own_prop (output_of obj w) k)"
    by blast
  note in1 = values_step_input(1)[OF step]
  have fresh: "field_key d \<notin> set (map field_key ds)" and dist: "distinct (map field_key ds)"
    using Cons.prems(2) by simp_all
  note IH = Cons.IH[OF rest dist plain1]
  have head: "\<exists>v raw'.
        parseValue env (chain_prop env (input_of req (in_loc d)) (name d)) d = Inr (v, raw')
        \<and> own_prop (output_of obj' (in_loc d)) (name d)
            = (if nullish v \<or> name d = ''__proto__''
               then own_prop (output_of obj (in_loc d)) (name d) else Some v)"
  proof -
    have "own_prop (output_of obj' (in_loc d)) (name d) = own_prop (output_of obj1 (in_loc d)) (name d)"
      using IH fresh by (simp add: field_key_def)
    then show ?thesis using pv out1[of "in_loc d" "name d"]
      by (auto simp: field_key_def)
  qed
  have tail: "\<exists>v raw'.
        parseValue env (chain_prop env (input_of req (in_loc d')) (name d')) d' = Inr (v, raw')
        \<and> own_prop (output_of obj' (in_loc d')) (name d')
            = (if nullish v \<or> name d' = ''__proto__''
               then own_prop (output_of obj (in_loc d')) (name d') else Some v)"
    if "d' \<in> set ds" for d'
  proof -
    have "field_key d' \<in> set (map field_key ds)"
      using that by simp
    with fresh have "field_key d' \<noteq> field_key d"
      by metis
    then have ne: "(in_loc d', name d') \<noteq> field_key d"
      by (simp add: field_key_def)
    from IH that obtain v' raw'' where
      "parseValue env (chain_prop env (input_of req1 (in_loc d')) (name d')) d' = Inr (v', raw'')"
      "own_prop (output_of obj' (in_loc d')) (name d')
         = (if nullish v' \<or> name d' = ''__proto__''
            then own_prop (output_of obj1 (in_loc d')) (name d') else Some v')"
      by blast
    then show ?thesis
      using in1[OF ne] out1[of "in_loc d'" "name d'"] ne by auto
  qed
  have others: "own_prop (output_of obj' w) k = own_prop (output_of obj w) k
            \<and> chain_prop env (input_of req' w) k = chain_prop env (input_of req w) k"
    if "(w, k) \<notin> set (map field_key (d # ds))" for w k
  proof -
    from that have a: "(w, k) \<noteq> field_key d" and b: "(w, k) \<notin> set (map field_key ds)"
      by auto
    from IH b have "own_prop (output_of obj' w) k = own_prop (output_of obj1 w) k"
      "chain_prop env (input_of req' w) k = chain_prop env (input_of req1 w) k"
      by blast+
    then show ?thesis using in1[OF a] out1[of w k] a by simp
  qed
  show ?case using head tail others by auto
qed

lemma values_run_no_proto:
  assumes "forEach (values_step env) ds (obj, req) = Inr (obj', req')"
    and "plain_output obj"
  shows "plain_output obj'"
proof -
  have "plain_output (fst st')"
    if "forEach (values_step env) ds st = Inr st'" and "plain_output (fst st)" for st st'
  proof (rule forEach_invariant[where P = "\<lambda>s. plain_output (fst s)", OF that])
    fix x a b
    assume "plain_output (fst a)" and "values_step env a x = Inr b"
    then show "plain_output (fst b)"
      by (cases a; cases b) (auto dest: values_step_output)
  qed
  from this[of "(obj, req)" "(obj', req')"] assms show ?thesis by simp
qed

lemma values_run_unchanged:
  assumes "forEach (values_step env) ds (obj, req) = Inr (obj', req')"
    and "\<forall>d \<in> set ds. \<not> overwritten_in_place d (chain_prop env (input_of req (in_loc d)) (name d))"
  shows "req' = req"
  using assms
proof (induction ds arbitrary: obj)
  case Nil
  then show ?case by simp
next
  case (Cons d ds)
  from Cons.prems(1) obtain obj1 req1 where
    step: "values_step env (obj, req) d = Inr (obj1, req1)"
    and rest: "forEach (values_step env) ds (obj1, req1) = Inr (obj', req')"
    by (auto split: sum.splits)
  from step obtain v raw' where
    pv: "parseValue env (chain_prop env (input_of req (in_loc d)) (name d)) d = Inr (v, raw')"
    and req1: "req1 = with_input req (in_loc d) (put_back (input_of req (in_loc d)) (name d) raw')"
    by (rule values_step_Inr)
  have "raw' = chain_prop env (input_of req (in_loc d)) (name d)"
    using Cons.prems(2) by (intro parseValue_raw_unchanged[OF pv]) simp
  then have "req1 = req"
    by (simp add: req1 put_back_same with_input_same)
  with rest Cons.prems(2) show ?case
    using Cons.IH[of obj1] by simp
qed

lemma field_key_with_defaults: "field_key (with_defaults d) = field_key d"
  by (simp add: field_key_def with_defaults_def)
subsection \<open>When \<open>values\<close> returns and when it aborts\<close>

lemma split_of_aborts:
  assumes "split_of env v divider = Inl e"
  shows "(\<forall>s. v \<noteq> Str s)
       \<and> (e = TypeError
          \<or> e = Unmodelled \<and> \<not> nullish v \<and> (\<exists>f. chain_prop env v ''split'' = Intrinsic f))"
  using assms by (cases v) (auto simp: split_of_def get_prop_def split: jsval.splits if_splits)

lemma malformed_value_aborts:
  assumes "malformed_value env d v = Inl e"
  shows "(ptype d = TNumber \<and> isArray d = Some True
            \<and> (split_of env v (elementsDivider d) = Inl e
               \<or> (\<exists>ts. split_of env v (elementsDivider d) = Inr ts \<and> all_numbers env ts = Inl e)))
       \<or> (ptype d = TNumber \<and> isArray d \<noteq> Some True \<and> ToNumber env v = Inl e)
       \<or> (ptype d = TDate \<and> Date_time env v = Inl e)"
  using assms
  by (cases "ptype d") (auto simp: malformed_value_def split: if_splits sum.splits)

lemma set_prop_aborts:
  assumes "set_prop env v k x = Inl e"
  shows "(\<not> is_object v \<and> e = TypeError)
       \<or> (\<exists>n kvs. v = Arr n kvs \<and> k = ''length'' \<and> (ToNumber env x = Inl e \<or> e = RangeError))
       \<or> (e = Unmodelled
           \<and> ((\<exists>h. v = Intrinsic h)
              \<or> is_object v \<and> k = ''__proto__'' \<and> own_prop v k = None
                \<and> (is_object x \<or> x = Null) \<and> x \<noteq> inherited env (kind_of v) ''__proto__''))"
  using assms
  by (cases v)
    (auto simp: set_own_def own_key_iff split: if_splits sum.splits option.splits)

lemma parseValue_aborts:
  assumes "parseValue env v d = Inl e"
  shows "\<not> nullish v
       \<and> ((ptype d \<noteq> TObject \<and> ptype d \<noteq> TDate \<and> isArray d = Some True
              \<and> split_of env v (elementsDivider d) = Inl e)
          \<or> (ptype d = TNumber \<and> isArray d = Some True
              \<and> (\<exists>ts. split_of env v (elementsDivider d) = Inr ts \<and> numbers_of env ts = Inl e))
          \<or> (ptype d = TNumber \<and> isArray d \<noteq> Some True \<and> ToNumber env v = Inl e)
          \<or> (ptype d = TDate \<and> Date_time env v = Inl e)
          \<or> (ptype d = TObject \<and> (\<exists>s. v = Str s) \<and> JSON_parse env v = Inl e)
          \<or> (ptype d = TObject
              \<and> (\<exists>ps ddef obj. properties d = Some ps \<and> ddef \<in> set ps
                    \<and> (get_prop env obj (name ddef) = Inl e
                       \<or> (\<exists>x. get_prop env obj (name ddef) = Inr x
                             \<and> (parseValue env x ddef = Inl e
                                \<or> (\<exists>r x'. parseValue env x ddef = Inr (r, x')
                                      \<and> set_prop env obj (name ddef) r = Inl e)))))))"
proof -
  have nn: "\<not> nullish v"
    using assms by (auto simp: parseValue_nullish)
  show ?thesis
  proof (cases "ptype d")
    case TString
    then show ?thesis using assms nn
      by (subst (asm) parseValue.simps) (auto split: if_splits sum.splits)
  next
    case TNumber
    then show ?thesis using assms nn
      by (subst (asm) parseValue.simps) (auto split: if_splits sum.splits)
  next
    case TDate
    then show ?thesis using assms nn
      by (subst (asm) parseValue.simps) (auto split: if_splits sum.splits)
  next
    case TBoolean
    then show ?thesis using assms nn
      by (subst (asm) parseValue.simps) (auto split: if_splits sum.splits)
  next
    case TObject
    let ?ps = "case properties d of None \<Rightarrow> [] | Some ps \<Rightarrow> ps"
    let ?f = "\<lambda>obj ddef.
                      case get_prop env obj (name ddef) of
                        Inl e \<Rightarrow> Inl e
                      | Inr v \<Rightarrow>
                          (case parseValue env v ddef of
                             Inl e \<Rightarrow> Inl e
                           | Inr (r, v') \<Rightarrow> set_prop env obj (name ddef) r)"
    let ?parsed = "case v of Str s \<Rightarrow> JSON_parse env v | _ \<Rightarrow> Inr v"
    show ?thesis
    proof (cases ?parsed)
      case (Inl e')
      with assms nn TObject have "e' = e"
        by (subst (asm) parseValue.simps) simp
      with Inl have "(\<exists>s. v = Str s) \<and> JSON_parse env v = Inl e"
        by (cases v) auto
      with nn TObject show ?thesis by simp
    next
      case (Inr objValue)
      with assms nn TObject have "forEach ?f ?ps objValue = Inl e"
        by (subst (asm) parseValue.simps) (simp split: sum.splits)
      from forEach_aborts[OF this] obtain ddef obj where
        ddef: "ddef \<in> set ?ps" and step: "?f obj ddef = Inl e"
        by blast
      from ddef obtain ps where ps: "properties d = Some ps" "ddef \<in> set ps"
        by (cases "properties d") auto
      from step have "get_prop env obj (name ddef) = Inl e
                       \<or> (\<exists>x. get_prop env obj (name ddef) = Inr x
                             \<and> (parseValue env x ddef = Inl e
                                \<or> (\<exists>r x'. parseValue env x ddef = Inr (r, x')
                                      \<and> set_prop env obj (name ddef) r = Inl e)))"
        by (auto split: sum.splits)
      with ps nn TObject show ?thesis by blast
    qed
  qed
qed

lemma store_value_aborts:
  assumes "store_value env obj w k v = Inl e" and "plain_output obj"
  shows "e = Unmodelled \<and> k = ''__proto__'' \<and> (is_object v \<or> v = Null)
       \<and> v \<noteq> inherited env KObject ''__proto__''"
proof -
  from assms(2) obtain kvs where "output_of obj w = Obj kvs"
    by (auto simp: plain_output_def)
  with assms(1) show ?thesis
    by (auto simp: store_value_def set_own_def split: sum.splits if_splits)
qed

lemma values_step_aborts:
  assumes "values_step env (obj, rq) d = Inl e" and "plain_output obj"
  shows "(nullish (input_of rq (in_loc d)) \<and> e = TypeError)
       \<or> parseValue env (chain_prop env (input_of rq (in_loc d)) (name d)) d = Inl e
       \<or> (e = Unmodelled \<and> name d = ''__proto__''
           \<and> (\<exists>v raw'. parseValue env (chain_prop env (input_of rq (in_loc d)) (name d)) d
                          = Inr (v, raw') \<and> is_object v
                  \<and> v \<noteq> inherited env KObject ''__proto__''))"
proof (cases "nullish (input_of rq (in_loc d))")
  case True
  with assms(1) show ?thesis by (simp add: values_step_def get_prop_def)
next
  case False
  show ?thesis
  proof (cases "parseValue env (chain_prop env (input_of rq (in_loc d)) (name d)) d")
    case (Inl e')
    with assms(1) False show ?thesis by (simp add: values_step_def get_prop_def)
  next
    case (Inr p)
    obtain v raw' where p: "p = (v, raw')" by (cases p)
    from assms(1) False Inr p have st: "store_value env obj (in_loc d) (name d) v = Inl e"
      and nn: "\<not> nullish v"
      by (auto simp: values_step_def get_prop_def split: if_splits sum.splits)
    from store_value_aborts[OF st assms(2)] nn have "e = Unmodelled" "name d = ''__proto__''"
      "is_object v" "v \<noteq> inherited env KObject ''__proto__''"
      by auto
    with Inr p show ?thesis by blast
  qed
qed

lemma values_aborts:
  assumes "values_of env this req = Inl e"
  shows "\<exists>ds d ds' obj rq.
           definitions this = ds @ d # ds'
         \<and> forEach (values_step env) ds (empty_result, req) = Inr (obj, rq)
         \<and> ((nullish (input_of req (in_loc d)) \<and> e = TypeError)
            \<or> parseValue env (chain_prop env (input_of rq (in_loc d)) (name d)) d = Inl e
            \<or> (e = Unmodelled \<and> name d = ''__proto__''
                \<and> (\<exists>v raw'. parseValue env (chain_prop env (input_of rq (in_loc d)) (name d)) d
                               = Inr (v, raw') \<and> is_object v
                  \<and> v \<noteq> inherited env KObject ''__proto__'')))"
proof -
  from assms have "forEach (values_step env) (definitions this) (empty_result, req) = Inl e"
    by (simp add: values_of_def)
  from forEach_aborts_at[OF this] obtain ds d ds' a where
    split: "definitions this = ds @ d # ds'"
    and pre: "forEach (values_step env) ds (empty_result, req) = Inr a"
    and step: "values_step env a d = Inl e"
    by blast
  obtain obj rq where a: "a = (obj, rq)" by (cases a)
  have plain: "plain_output obj"
    using values_run_no_proto[OF pre[unfolded a] plain_output_empty] .
  have "nullish (input_of st' w) = nullish (input_of req w)"
    if "forEach (values_step env) ds (empty_result, req) = Inr (obj', st')" for obj' st' w
  proof -
    have "nullish (input_of (snd t) w) = nullish (input_of req w)"
      if "forEach (values_step env) ds s = Inr t"
        and "nullish (input_of (snd s) w) = nullish (input_of req w)" for s t
    proof (rule forEach_invariant[where P = "\<lambda>s. nullish (input_of (snd s) w) = nullish (input_of req w)",
          OF that])
      fix x a b
      assume "nullish (input_of (snd a) w) = nullish (input_of req w)"
        and "values_step env a x = Inr b"
      then show "nullish (input_of (snd b) w) = nullish (input_of req w)"
        by (cases a; cases b) (auto dest: values_step_input(2))
    qed
    from this[OF that] show ?thesis by simp
  qed
  from this[OF pre[unfolded a]] have same: "nullish (input_of rq w) = nullish (input_of req w)" for w .
  from values_step_aborts[OF step[unfolded a] plain] same split pre a
  show ?thesis by blast
qed

lemma string_raw_kept:
  assumes "values_step env (obj, rq) d = Inr (obj', rq')"
    and "chain_prop env (input_of rq w) k = Str s"
  shows "chain_prop env (input_of rq' w) k = Str s"
proof (cases "(w, k) = field_key d")
  case False
  with values_step_input(1)[OF assms(1)] assms(2) show ?thesis by simp
next
  case True
  then have wk: "w = in_loc d" "k = name d"
    by (simp_all add: field_key_def)
  from assms(1) obtain v raw' where
    pv: "parseValue env (chain_prop env (input_of rq (in_loc d)) (name d)) d = Inr (v, raw')"
    and rq': "rq' = with_input rq (in_loc d) (put_back (input_of rq (in_loc d)) (name d) raw')"
    by (rule values_step_Inr)
  from pv assms(2) wk have "raw' = chain_prop env (input_of rq (in_loc d)) (name d)"
    by (auto dest: parseValue_string_raw)
  then have "rq' = rq"
    by (simp add: rq' put_back_same with_input_same)
  with assms(2) show ?thesis by simp
qed

lemma values_parsed:
  assumes run: "values_of env this req = Inr (res, req')"
    and d: "d \<in> set (definitions this)"
    and obj: "ptype d = TObject"
    and raw: "chain_prop env (input_of req (in_loc d)) (name d) = Str s"
  shows "\<exists>payload. JSON_parse env (Str s) = Inr payload"
proof -
  from d obtain ds ds' where split: "definitions this = ds @ d # ds'"
    by (auto dest: split_list)
  from run have "forEach (values_step env) (ds @ d # ds') (empty_result, req) = Inr (res, req')"
    by (simp add: values_of_def split)
  from forEach_split[OF this] obtain a b where
    pre: "forEach (values_step env) ds (empty_result, req) = Inr a"
    and step: "values_step env a d = Inr b"
    by blast
  let ?P = "\<lambda>st. chain_prop env (input_of (snd st) (in_loc d)) (name d) = Str s"
  have "?P a"
  proof (rule forEach_invariant[where P = ?P, OF pre])
    show "?P (empty_result, req)" using raw by simp
  next
    fix x a b
    assume "?P a" and "values_step env a x = Inr b"
    then show "?P b"
      by (cases a; cases b) (auto dest: string_raw_kept)
  qed
  obtain obj0 rq where a: "a = (obj0, rq)" by (cases a)
  obtain obj1 rq1 where b: "b = (obj1, rq1)" by (cases b)
  from step[unfolded a b] obtain v raw' where
    "parseValue env (chain_prop env (input_of rq (in_loc d)) (name d)) d = Inr (v, raw')"
    by (rule values_step_Inr)
  with \<open>?P a\<close> a have "parseValue env (Str s) d = Inr (v, raw')"
    by simp
  with obj show ?thesis
    by (subst (asm) parseValue.simps) (auto split: sum.splits)
qed
section \<open>Schemas with dot-free names and flat objects\<close>

lemma push_param_length: "length (push_param w n es) = length es"
  by (induction es) auto

lemma find_filter_Some:
  assumes "find P (filter Q xs) = Some d"
  shows "P d" and "Q d" and "d \<in> set xs"
  using find_Some_holds[OF assms] find_Some_in_set[OF assms] by auto

lemma check_key_cases:
  assumes "check_key env this rec defs pth w prms (mi, un, ma) k = Inr (mi', un', ma')"
  shows "(mi' = mi \<and> ma' = ma)
       \<or> (mi' = mi \<and> ma' = push_param w (pth @ k) ma
           \<and> (\<exists>d. find (\<lambda>d. name d = k) (filter (\<lambda>d. in_loc d = w) defs) = Some d \<and> \<not> nests d))
       \<or> (\<exists>d ps payload r'.
             find (\<lambda>d. name d = k) (filter (\<lambda>d. in_loc d = w) defs) = Some d
             \<and> ptype d = TObject \<and> properties d = Some ps
             \<and> JSON_parse env (prop_of prms k) = Inr payload
             \<and> rec (fake_req w payload) (k, ps) = Inr r'
             \<and> mi' = mi @ missing r' \<and> ma' = ma @ malformed r')"
proof (cases "find (\<lambda>d. name d = k) (filter (\<lambda>d. in_loc d = w) defs)")
  case None
  then show ?thesis using assms
    by (auto simp: check_key_def flag_unknown_def split: if_splits)
next
  case (Some d)
  then have w: "in_loc d = w" by (auto dest: find_filter_Some(2))
  show ?thesis
  proof (cases "already_missing w (pth @ k) (mi, un, ma)")
    case True
    then show ?thesis using assms Some by (simp add: check_key_def)
  next
    case False
    have "\<not> nests d" if "malformed_value env d (prop_of prms k) = Inr True"
      using that by (auto simp: nests_def malformed_value_def)
    moreover have "\<not> nests d" if "properties d = None"
      using that by (simp add: nests_def)
    ultimately show ?thesis using assms Some False w
      by (auto simp: check_key_def flag_malformed_def merge_lists_def
          split: if_splits option.splits sum.splits)
  qed
qed

lemma dotted_split:
  assumes "dot_free a" and "dot_free b" and "a @ ''.'' @ x = b @ ''.'' @ y"
  shows "a = b \<and> x = y"
  using assms
proof (induction a arbitrary: b)
  case Nil
  then show ?case by (cases b) (auto simp: dot_free_def)
next
  case (Cons c a)
  then show ?case by (cases b) (auto simp: dot_free_def)
qed

lemma flat_check:
  assumes run: "check env this fr (Some (k, ps)) = Inr r'"
    and flat: "\<forall>p \<in> set ps. \<not> nests p"
  shows "missing r' = missing_pass ps (k @ ''.'') fr" and "length (malformed r') = 3"
proof -
  let ?mi0 = "missing_pass ps (k @ ''.'') fr"
  let ?Q = "\<lambda>st. fst st = ?mi0 \<and> length (snd (snd st)) = 3"
  let ?step = "\<lambda>w. check_key env this (\<lambda>fr p. check env this fr (Some p))
             ps (k @ ''.'') w (mapping_of fr w)"
  from run obtain st where loop: "forEach
       (\<lambda>st w. forEach (?step w) (Object_keys (mapping_of fr w)) st)
       locations (?mi0, empty_entries, empty_entries) = Inr st"
    and r: "r' = result_of st"
    by (rule check_unfold[where parent = "Some (k, ps)", simplified scope_def path_prefix_def, simplified])
  have step: "?Q b" if "?Q a" and "?step w a x = Inr b" for w x a b
  proof -
    obtain mi un ma where a: "a = (mi, un, ma)" by (cases a)
    obtain mi' un' ma' where b: "b = (mi', un', ma')" by (cases b)
    from check_key_cases[OF that(2)[unfolded a b]] flat
    have "mi' = mi \<and> length ma' = length ma"
      by (auto simp: push_param_length nests_def dest!: find_filter_Some(3))
    with that(1) show ?thesis by (simp add: a b)
  qed
  have "?Q st"
  proof (rule forEach_invariant[where P = ?Q, OF loop])
    show "?Q (?mi0, empty_entries, empty_entries)"
      by (simp add: empty_entries_def locations_def)
  next
    fix w a b
    assume "?Q a" and inner: "forEach (?step w) (Object_keys (mapping_of fr w)) a = Inr b"
    show "?Q b"
      by (rule forEach_invariant[where P = ?Q, OF inner \<open>?Q a\<close>]) (rule step)
  qed
  then show "missing r' = ?mi0" and "length (malformed r') = 3"
    unfolding r by (cases st; simp add: result_of_def Let_def)+
qed

lemma three_own_entries:
  assumes "own_entries es" and "length es = 3" and "e \<in> set es"
  shows "e = own_entry es (ewhere e)"
proof -
  from assms(1) obtain a b c rest where
    es: "es = \<lparr>ewhere = Query, eparams = a\<rparr> # \<lparr>ewhere = Path, eparams = b\<rparr>
            # \<lparr>ewhere = Body, eparams = c\<rparr> # rest"
    by (rule own_entries_cases)
  with assms(2) have "rest = []" by simp
  with es assms(3) show ?thesis
    by (auto simp: own_entry_def)
qed

lemma flat_nested_entries:
  assumes run: "check env this (fake_req w payload) (Some (k, ps)) = Inr r'"
    and flat: "\<forall>p \<in> set ps. \<not> nests p \<and> in_loc p = w"
  shows "m \<in> set (missing r') \<Longrightarrow> n \<in> set (eparams m)
           \<Longrightarrow> ewhere m = w \<and> (\<exists>c. n = k @ ''.'' @ c)"
    and "f \<in> set (malformed r') \<Longrightarrow> n \<in> set (eparams f)
           \<Longrightarrow> ewhere f = w \<and> (\<exists>c. n = k @ ''.'' @ c)"
    and "m \<in> set (missing r') \<Longrightarrow> f \<in> set (malformed r') \<Longrightarrow> ewhere m = ewhere f
           \<Longrightarrow> set (eparams m) \<inter> set (eparams f) = {}"
proof -
  from flat have flat': "\<forall>p \<in> set ps. \<not> nests p" by simp
  note own = check_own_entries[OF run]
  have len: "length (missing r') = 3" "length (malformed r') = 3"
    using flat_check[OF run flat'] by (simp_all add: missing_pass_def locations_def)
  have mi: "m = own_entry (missing r') (ewhere m)" if "m \<in> set (missing r')" for m
    using own(1) len(1) that by (rule three_own_entries)
  have ma: "f = own_entry (malformed r') (ewhere f)" if "f \<in> set (malformed r')" for f
    using own(3) len(2) that by (rule three_own_entries)
  show "ewhere m = w \<and> (\<exists>c. n = k @ ''.'' @ c)"
    if "m \<in> set (missing r')" "n \<in> set (eparams m)"
  proof -
    from that(2) have "n \<in> set (eparams (own_entry (missing r') (ewhere m)))"
      using mi[OF that(1)] by simp
    then show ?thesis
      using flat
      by (auto simp: check_own_missing[OF run] required_names_def scope_def path_prefix_def)
  qed
  show "ewhere f = w \<and> (\<exists>c. n = k @ ''.'' @ c)"
    if "f \<in> set (malformed r')" "n \<in> set (eparams f)"
  proof -
    from that(2) have n: "n \<in> set (eparams (own_entry (malformed r') (ewhere f)))"
      using ma[OF that(1)] by simp
    with check_own_malformed[OF run, of "ewhere f"]
    obtain c where c: "c \<in> set (Object_keys (mapping_of (fake_req w payload) (ewhere f)))"
      and "n = k @ ''.'' @ c"
      by (auto simp: path_prefix_def)
    moreover have "ewhere f = w"
    proof (rule ccontr)
      assume "ewhere f \<noteq> w"
      then have "Object_keys (mapping_of (fake_req w payload) (ewhere f)) = []"
        by (rule keys_fake_req_elsewhere)
      with c show False by simp
    qed
    ultimately show ?thesis by blast
  qed
  show "set (eparams m) \<inter> set (eparams f) = {}"
    if "m \<in> set (missing r')" "f \<in> set (malformed r')" "ewhere m = ewhere f"
  proof -
    have "set (eparams (own_entry (missing r') (ewhere f)))
        \<inter> set (eparams (own_entry (malformed r') (ewhere f))) = {}"
      using check_own_malformed[OF run, of "ewhere f"]
      by (auto simp: check_own_missing[OF run])
    then show ?thesis
      using mi[OF that(1)] ma[OF that(2)] that(3) by simp
  qed
qed

lemma top_invI:
  assumes "mi = missing_pass (definitions this) [] req @ mex"
    and "\<forall>e \<in> set mex. \<exists>w k d r'. nested_at env this req w k d r' \<and> e \<in> set (missing r')"
    and "ma = own @ maex" and "length own = 3" and "own_entries own"
    and "\<forall>e \<in> set own. \<forall>n \<in> set (eparams e). \<exists>d \<in> set (definitions this). n = name d"
    and "\<forall>e \<in> set maex. \<exists>w k d r'. nested_at env this req w k d r' \<and> e \<in> set (malformed r')"
  shows "top_inv env this req (mi, un, ma)"
  unfolding top_inv_def using assms by blast

lemma push_param_entries:
  "e' \<in> set (push_param w n es)
     \<Longrightarrow> \<exists>e \<in> set es. set (eparams e') \<subseteq> insert n (set (eparams e))"
  by (induction es) (auto split: if_splits)

lemma push_param_own_append:
  assumes "own_entries own"
  shows "push_param w n (own @ ex) = push_param w n own @ ex"
proof -
  from assms obtain a b c rest where
    "own = \<lparr>ewhere = Query, eparams = a\<rparr> # \<lparr>ewhere = Path, eparams = b\<rparr>
            # \<lparr>ewhere = Body, eparams = c\<rparr> # rest"
    by (rule own_entries_cases)
  then show ?thesis by (cases w) simp_all
qed

lemma top_inv_step:
  assumes inv: "top_inv env this req st"
    and step: "check_key env this (\<lambda>fr p. check env this fr (Some p)) (definitions this) [] w
                 (mapping_of req w) st k = Inr st'"
  shows "top_inv env this req st'"
proof -
  obtain mi un ma where st: "st = (mi, un, ma)" by (cases st)
  obtain mi' un' ma' where st': "st' = (mi', un', ma')" by (cases st')
  from inv st obtain mex own maex where
    mi: "mi = missing_pass (definitions this) [] req @ mex"
    and mex: "\<forall>e \<in> set mex. \<exists>w k d r'. nested_at env this req w k d r' \<and> e \<in> set (missing r')"
    and ma: "ma = own @ maex" and len: "length own = 3" and own: "own_entries own"
    and names: "\<forall>e \<in> set own. \<forall>n \<in> set (eparams e). \<exists>d \<in> set (definitions this). n = name d"
    and maex: "\<forall>e \<in> set maex. \<exists>w k d r'. nested_at env this req w k d r' \<and> e \<in> set (malformed r')"
    by (auto simp: top_inv_def)
  from check_key_cases[OF step[unfolded st st']]
  consider (same) "mi' = mi" "ma' = ma"
    | (flagged) d where "mi' = mi" "ma' = push_param w ([] @ k) ma"
        "find (\<lambda>d. name d = k) (filter (\<lambda>d. in_loc d = w) (definitions this)) = Some d"
    | (merged) d ps payload r' where
        "find (\<lambda>d. name d = k) (filter (\<lambda>d. in_loc d = w) (definitions this)) = Some d"
        "properties d = Some ps"
        "JSON_parse env (prop_of (mapping_of req w) k) = Inr payload"
        "check env this (fake_req w payload) (Some (k, ps)) = Inr r'"
        "mi' = mi @ missing r'" "ma' = ma @ malformed r'"
    by blast
  then show ?thesis
  proof cases
    case same
    then show ?thesis using inv by (simp add: st st' top_inv_def)
  next
    case flagged
    from find_filter_Some[OF flagged(3)] have d: "name d = k" "d \<in> set (definitions this)"
      by simp_all
    have ma': "ma' = push_param w k own @ maex"
      using flagged(2) by (simp add: ma push_param_own_append[OF own])
    have "\<forall>e \<in> set (push_param w k own). \<forall>n \<in> set (eparams e).
            \<exists>d \<in> set (definitions this). n = name d"
    proof (intro ballI)
      fix e n
      assume "e \<in> set (push_param w k own)" and n: "n \<in> set (eparams e)"
      then obtain e0 where "e0 \<in> set own" and "set (eparams e) \<subseteq> insert k (set (eparams e0))"
        by (blast dest: push_param_entries)
      with n names d show "\<exists>d \<in> set (definitions this). n = name d"
        by blast
    qed
    then show ?thesis
      unfolding st'
      using flagged(1) mi mex ma' maex len own_entries_push(1)[OF own, of w k]
      by (intro top_invI[where mex = mex and own = "push_param w k own" and maex = maex])
        (simp_all add: push_param_length)
  next
    case merged
    have at: "nested_at env this req w k d r'"
      using merged(1-4) by (auto simp: nested_at_def)
    have "\<forall>e \<in> set (mex @ missing r'). \<exists>w k d r'.
            nested_at env this req w k d r' \<and> e \<in> set (missing r')"
      using mex at by auto
    moreover have "\<forall>e \<in> set (maex @ malformed r'). \<exists>w k d r'.
            nested_at env this req w k d r' \<and> e \<in> set (malformed r')"
      using maex at by auto
    ultimately show ?thesis
      unfolding st'
      using merged(5,6) mi ma len own names
      by (intro top_invI[where mex = "mex @ missing r'" and own = own
            and maex = "maex @ malformed r'"]) simp_all
  qed
qed

lemma check_top_inv:
  assumes "check env this req None = Inr r"
  shows "top_inv env this req (missing r, unknown r, malformed r)"
proof -
  let ?mi0 = "missing_pass (definitions this) [] req"
  let ?inv = "top_inv env this req"
  let ?step = "\<lambda>w. check_key env this (\<lambda>fr p. check env this fr (Some p))
             (definitions this) [] w (mapping_of req w)"
  from assms obtain st where loop: "forEach
       (\<lambda>st w. forEach (?step w) (Object_keys (mapping_of req w)) st)
       locations (?mi0, empty_entries, empty_entries) = Inr st"
    and r: "r = result_of st"
    by (rule check_unfold[where parent = None, simplified scope_def path_prefix_def, simplified])
  have init: "?inv (?mi0, empty_entries, empty_entries)"
  proof (rule top_invI[where mex = "[]" and own = empty_entries and maex = "[]"])
    show "\<forall>e \<in> set empty_entries. \<forall>n \<in> set (eparams e). \<exists>d \<in> set (definitions this). n = name d"
      by (simp add: empty_entries_def locations_def)
    show "length empty_entries = 3"
      by (simp add: empty_entries_def locations_def)
  qed (simp_all add: own_entries_initial)
  have "?inv st"
  proof (rule forEach_invariant[where P = ?inv, OF loop init])
    fix w a b
    assume "?inv a" and inner: "forEach (?step w) (Object_keys (mapping_of req w)) a = Inr b"
    show "?inv b"
      by (rule forEach_invariant[where P = ?inv, OF inner \<open>?inv a\<close>]) (rule top_inv_step)
  qed
  then show ?thesis
    unfolding r by (cases st) (simp add: result_of_def Let_def)
qed

lemma nested_at_flat:
  assumes at: "nested_at env this req w k d r'"
    and ok: "\<forall>d \<in> set (definitions this). dot_free (name d) \<and> flat_properties d"
  obtains ps payload where
    "check env this (fake_req w payload) (Some (k, ps)) = Inr r'"
    "\<forall>p \<in> set ps. \<not> nests p \<and> in_loc p = w"
    "dot_free k"
proof -
  from at obtain ps payload where
    found: "find (\<lambda>d. name d = k) (filter (\<lambda>d. in_loc d = w) (definitions this)) = Some d"
    and ps: "properties d = Some ps"
    and run: "check env this (fake_req w payload) (Some (k, ps)) = Inr r'"
    by (auto simp: nested_at_def)
  from find_filter_Some[OF found] have d: "name d = k" "in_loc d = w" "d \<in> set (definitions this)"
    by simp_all
  with ok have "dot_free k" and "flat_properties d" by auto
  with ps d(2) have "\<forall>p \<in> set ps. \<not> nests p \<and> in_loc p = w"
    by (simp add: flat_properties_def list_all_iff)
  with run \<open>dot_free k\<close> that show thesis by blast
qed

lemma nested_at_same:
  assumes "nested_at env this req w k d1 r1" and "nested_at env this req w k d2 r2"
  shows "r1 = r2"
  using assms by (auto simp: nested_at_def)

lemma missing_and_malformed_disjoint:
  assumes run: "check env this req None = Inr r"
    and ok: "\<forall>d \<in> set (definitions this). dot_free (name d) \<and> flat_properties d"
    and m: "m \<in> set (missing r)" and f: "f \<in> set (malformed r)"
    and same: "ewhere m = ewhere f"
  shows "set (eparams m) \<inter> set (eparams f) = {}"
proof (rule ccontr)
  assume "set (eparams m) \<inter> set (eparams f) \<noteq> {}"
  then obtain n where nm: "n \<in> set (eparams m)" and nf: "n \<in> set (eparams f)"
    by blast
  let ?mi0 = "missing_pass (definitions this) [] req"
  from check_top_inv[OF run] obtain mex own maex where
    mi: "missing r = ?mi0 @ mex"
    and mex: "\<forall>e \<in> set mex. \<exists>w k d r'. nested_at env this req w k d r' \<and> e \<in> set (missing r')"
    and ma: "malformed r = own @ maex" and len: "length own = 3" and own: "own_entries own"
    and names: "\<forall>e \<in> set own. \<forall>n \<in> set (eparams e). \<exists>d \<in> set (definitions this). n = name d"
    and maex: "\<forall>e \<in> set maex. \<exists>w k d r'. nested_at env this req w k d r' \<and> e \<in> set (malformed r')"
    by (auto simp: top_inv_def)
  have own_m: "m = own_entry (missing r) (ewhere m) \<and> dot_free n" if "m \<in> set ?mi0"
  proof -
    have "length ?mi0 = 3"
      by (simp add: missing_pass_def locations_def)
    with own_entries_initial(2) have "m = own_entry ?mi0 (ewhere m)"
      using that by (rule three_own_entries)
    then have eq: "m = own_entry (missing r) (ewhere m)"
      by (simp add: mi own_entries_append(2)[OF own_entries_initial(2)])
    with nm have "n \<in> set (eparams (own_entry (missing r) (ewhere m)))"
      by simp
    then have "\<exists>d \<in> set (definitions this). n = name d"
      by (auto simp: check_own_missing[OF run] required_names_def scope_def path_prefix_def)
    with ok eq show ?thesis by auto
  qed
  have own_f: "f = own_entry (malformed r) (ewhere f) \<and> dot_free n" if "f \<in> set own"
  proof -
    from own len that have "f = own_entry own (ewhere f)"
      by (rule three_own_entries)
    then have "f = own_entry (malformed r) (ewhere f)"
      by (simp add: ma own_entries_append(2)[OF own])
    moreover from names that nf obtain d where "d \<in> set (definitions this)" "n = name d"
      by blast
    with ok have "dot_free n" by simp
    ultimately show ?thesis by simp
  qed
  have nested_m: "\<exists>w k d r'. nested_at env this req w k d r' \<and> m \<in> set (missing r')"
    if "m \<notin> set ?mi0"
    using that m mi mex by auto
  have nested_f: "\<exists>w k d r'. nested_at env this req w k d r' \<and> f \<in> set (malformed r')"
    if "f \<notin> set own"
    using that f ma maex by auto
  show False
  proof (cases "m \<in> set ?mi0")
    case m_own: True
    show ?thesis
    proof (cases "f \<in> set own")
      case True
      from own_m[OF m_own] own_f[OF True] same
      have "n \<in> set (eparams (own_entry (missing r) (ewhere f)))"
        and "n \<in> set (eparams (own_entry (malformed r) (ewhere f)))"
        using nm nf by simp_all
      then show False
        using check_own_malformed[OF run, of "ewhere f"]
        by (auto simp: check_own_missing[OF run])
    next
      case False
      from nested_f[OF False] obtain w k d r' where
        at: "nested_at env this req w k d r'" and fr: "f \<in> set (malformed r')"
        by blast
      from at ok obtain ps payload where
        "check env this (fake_req w payload) (Some (k, ps)) = Inr r'"
        "\<forall>p \<in> set ps. \<not> nests p \<and> in_loc p = w"
        by (rule nested_at_flat)
      from flat_nested_entries(2)[OF this fr nf] obtain c where "n = k @ ''.'' @ c"
        by blast
      with own_m[OF m_own] show False
        by (simp add: dot_free_def)
    qed
  next
    case m_nested: False
    from nested_m[OF m_nested] obtain w k d r' where
      at: "nested_at env this req w k d r'" and mr: "m \<in> set (missing r')"
      by blast
    from at ok obtain ps payload where
      run': "check env this (fake_req w payload) (Some (k, ps)) = Inr r'"
      and flat: "\<forall>p \<in> set ps. \<not> nests p \<and> in_loc p = w"
      and k: "dot_free k"
      by (rule nested_at_flat)
    from flat_nested_entries(1)[OF run' flat mr nm] obtain c where
      wm: "ewhere m = w" and n: "n = k @ ''.'' @ c"
      by blast
    show ?thesis
    proof (cases "f \<in> set own")
      case True
      with own_f n show False
        by (simp add: dot_free_def)
    next
      case False
      from nested_f[OF False] obtain w2 k2 d2 r2 where
        at2: "nested_at env this req w2 k2 d2 r2" and fr: "f \<in> set (malformed r2)"
        by blast
      from at2 ok obtain ps2 payload2 where
        run2: "check env this (fake_req w2 payload2) (Some (k2, ps2)) = Inr r2"
        and flat2: "\<forall>p \<in> set ps2. \<not> nests p \<and> in_loc p = w2"
        and k2: "dot_free k2"
        by (rule nested_at_flat)
      from flat_nested_entries(2)[OF run2 flat2 fr nf] obtain c2 where
        wf: "ewhere f = w2" and n2: "n = k2 @ ''.'' @ c2"
        by blast
      from n n2 have "k @ ''.'' @ c = k2 @ ''.'' @ c2" by simp
      with k k2 have "k = k2 \<and> c = c2" by (rule dotted_split)
      then have "k = k2" ..
      moreover from wm wf same have "w = w2" by simp
      ultimately have "r' = r2"
        using at at2 by (auto intro: nested_at_same)
      with fr have "f \<in> set (malformed r')" by simp
      from flat_nested_entries(3)[OF run' flat mr this same] nm nf show False
        by blast
    qed
  qed
qed


subsection \<open>Names recorded by nested validations\<close>

lemma nested_missing_dotted:
  "check env this req parent = Inr r
     \<Longrightarrow> (\<forall>m \<in> set (drop 3 (missing r)). \<forall>n \<in> set (eparams m). \<not> dot_free n)
       \<and> (parent \<noteq> None \<longrightarrow> (\<forall>m \<in> set (missing r). \<forall>n \<in> set (eparams m). \<not> dot_free n))"
proof (induction env this req parent arbitrary: r rule: check.induct)
  case (1 env this req parent)
  let ?mi0 = "missing_pass (scope this parent) (path_prefix parent) req"
  let ?step = "\<lambda>w. check_key env this (\<lambda>fr p. check env this fr (Some p))
             (scope this parent) (path_prefix parent) w (mapping_of req w)"
  let ?I = "\<lambda>st. \<exists>mex. fst st = ?mi0 @ mex \<and> (\<forall>m \<in> set mex. \<forall>n \<in> set (eparams m). \<not> dot_free n)"
  from "1.prems" obtain st where loop: "forEach
       (\<lambda>st w. forEach (?step w) (Object_keys (mapping_of req w)) st)
       locations (?mi0, empty_entries, empty_entries) = Inr st"
    and r: "r = result_of st"
    by (rule check_unfold)
  have step: "?I b"
    if "w \<in> set locations" "k \<in> set (Object_keys (mapping_of req w))" "?I a" "?step w a k = Inr b"
    for w k a b
  proof -
    obtain mi un ma where a: "a = (mi, un, ma)" by (cases a)
    obtain mi' un' ma' where b: "b = (mi', un', ma')" by (cases b)
    from that(3) a obtain mex where mi: "mi = ?mi0 @ mex"
      and mex: "\<forall>m \<in> set mex. \<forall>n \<in> set (eparams m). \<not> dot_free n"
      by auto
    from check_key_cases[OF that(4)[unfolded a b]]
    consider "mi' = mi"
      | d ps payload r' where
        "find (\<lambda>d. name d = k) (filter (\<lambda>d. in_loc d = w) (scope this parent)) = Some d"
        "properties d = Some ps"
        "check env this (fake_req w payload) (Some (k, ps)) = Inr r'"
        "mi' = mi @ missing r'"
      by blast
    then show ?thesis
    proof cases
      case 1
      then show ?thesis using mi mex by (auto simp: b)
    next
      case 2
      from find_filter_Some(3)[OF 2(1)] have "d \<in> set (scope this parent)" .
      from "1.IH"[OF that(1,2) this 2(2) 2(3)]
      have "\<forall>m \<in> set (missing r'). \<forall>n \<in> set (eparams m). \<not> dot_free n"
        by simp
      with mex have "\<forall>m \<in> set (mex @ missing r'). \<forall>n \<in> set (eparams m). \<not> dot_free n"
        by auto
      moreover have "mi' = ?mi0 @ (mex @ missing r')"
        using 2(4) mi by simp
      ultimately show ?thesis unfolding b by (metis fst_conv)
    qed
  qed
  have "?I st"
  proof (rule forEach_invariant[where P = ?I, OF loop])
    show "?I (?mi0, empty_entries, empty_entries)" by simp
  next
    fix w a b
    assume w: "w \<in> set locations" and "?I a"
      and inner: "forEach (?step w) (Object_keys (mapping_of req w)) a = Inr b"
    show "?I b"
      by (rule forEach_invariant[where P = ?I, OF inner \<open>?I a\<close>]) (rule step[OF w])
  qed
  then obtain mex where mi: "missing r = ?mi0 @ mex"
    and mex: "\<forall>m \<in> set mex. \<forall>n \<in> set (eparams m). \<not> dot_free n"
    unfolding r by (cases st) (auto simp: result_of_def Let_def)
  have len: "length ?mi0 = 3"
    by (simp add: missing_pass_def locations_def)
  have "\<forall>m \<in> set ?mi0. \<forall>n \<in> set (eparams m). \<not> dot_free n" if "parent \<noteq> None"
    using that by (auto simp: missing_pass_def path_prefix_def dot_free_def)
  with mi mex len show ?case by auto
qed

lemma top_level_key_not_missing:
  assumes run: "check env this req None = Inr r"
    and key: "k \<in> set (Object_keys (mapping_of req w))"
    and nodot: "dot_free k"
  shows "\<not> reported_missing r w (path_prefix None @ k)"
proof
  assume "reported_missing r w (path_prefix None @ k)"
  then obtain m where m: "m \<in> set (missing r)" and w: "ewhere m = w" and k: "k \<in> set (eparams m)"
    by (auto simp: reported_missing_def path_prefix_def list_ex_iff)
  let ?mi0 = "missing_pass (scope this None) (path_prefix None) req"
  from check_level_inv[OF run] obtain ex where mi: "missing r = ?mi0 @ ex"
    by (auto simp: level_inv_def)
  have len: "length ?mi0 = 3"
    by (simp add: missing_pass_def locations_def)
  from nested_missing_dotted[OF run] mi len
  have "\<forall>m \<in> set ex. \<forall>n \<in> set (eparams m). \<not> dot_free n"
    by simp
  with m mi k nodot have "m \<in> set ?mi0" by auto
  with w k show False
    using key by (auto simp: missing_pass_def path_prefix_def)
qed
section \<open>The examples, evaluated\<close>

lemma with_defaults_sel:
  "name (with_defaults d) = name d"
  "ptype (with_defaults d) = ptype d"
  "in_loc (with_defaults d) = in_loc d"
  "properties (with_defaults d) = properties d"
  "required (with_defaults d) = Some (case required d of None \<Rightarrow> False | Some b \<Rightarrow> b)"
  "isArray (with_defaults d) = Some (case isArray d of None \<Rightarrow> False | Some b \<Rightarrow> b)"
  "elementsDivider (with_defaults d) = Some (case elementsDivider d of None \<Rightarrow> '','' | Some s \<Rightarrow> s)"
  "default_val (with_defaults d) = Some (case default_val d of None \<Rightarrow> Null | Some v \<Rightarrow> v)"
  by (simp_all add: with_defaults_def)

lemma new_sanitizer_sel:
  "definitions (new_sanitizer data opts) = map with_defaults data"
  "strict (options (new_sanitizer data opts)) = Some (case strict opts of None \<Rightarrow> False | Some b \<Rightarrow> b)"
  by (simp_all add: new_sanitizer_def)

lemma mapping_of_fake_req:
  "mapping_of (fake_req w v) w' = (if w' = w \<and> w \<noteq> Path then or_empty v else Obj [])"
  by (auto simp: mapping_of_def input_of_fake_req or_empty_def)

lemma example_builtins_sel:
  \<open>JSON_parse example_builtins (Str ''{}'') = Inr (Obj [])\<close>
  \<open>JSON_parse example_builtins (Str ''{"p":"{}"}'') = Inr (Obj [(''p'', Str ''{}'')])\<close>
  \<open>JSON_parse example_builtins (Str ''{'') = Inl SyntaxError\<close>
  \<open>ToNumber example_builtins (Str ''x'') = Inr NaN\<close>
  \<open>ToNumber example_builtins (Str ''7'') = Inr (Finite 7)\<close>
  \<open>inherited example_builtins KObject ''constructor'' = Intrinsic ''Object''\<close>
  \<open>inherited example_builtins KObject ''b'' = Undefined\<close>
  \<open>inherited example_builtins KObject ''flag'' = Undefined\<close>
  \<open>inherited example_builtins KObject ''p2'' = Undefined\<close>
  \<open>inherited example_builtins KObject ''split'' = Undefined\<close>
  \<open>inherited example_builtins KArray ''split'' = Undefined\<close>
  by (simp_all add: example_builtins_def)

lemma example_arrays:
  "array_of [Num (Finite 1), Num (Finite 2)] = Arr 2 [(''0'', Num (Finite 1)), (''1'', Num (Finite 2))]"
  by (simp add: array_of_def index_keys_def upt_rec)

lemma example_keys:
  "index_value ''p1'' = None" "index_value ''flag'' = None" "index_value ''b'' = None"
  "index_value ''a'' = None" "index_value ''addr'' = None" "index_value ''constructor'' = None"
  "index_value ''__proto__'' = None"
  by (simp_all add: index_value_def digit_of_def)

lemma example_fields:
  "name spec_p1 = ''p1''" "ptype spec_p1 = TString" "in_loc spec_p1 = Query"
  "required spec_p1 = Some True" "isArray spec_p1 = None" "default_val spec_p1 = None"
  "name spec_p2 = ''p2''" "ptype spec_p2 = TNumber" "in_loc spec_p2 = Query"
  "required spec_p2 = None" "isArray spec_p2 = None" "default_val spec_p2 = None"
  "name grandparent_g = ''g''" "ptype grandparent_g = TObject" "in_loc grandparent_g = Query"
  "required grandparent_g = None" "properties grandparent_g = Some [parent_p]"
  "name parent_p = ''p''" "ptype parent_p = TObject" "in_loc parent_p = Query"
  "required parent_p = None" "properties parent_p = Some [child_c]"
  "name child_c = ''c''" "ptype child_c = TString" "in_loc child_c = Query"
  "required child_c = Some True" "properties child_c = None"
  "name flag_property = ''flag''" "ptype flag_property = TBoolean" "in_loc flag_property = Body"
  "isArray flag_property = None" "default_val flag_property = None"
  "name addr_field = ''addr''" "ptype addr_field = TObject" "in_loc addr_field = Body"
  "properties addr_field = Some [flag_property]"
  "name dotted_ab = ''a.b''" "ptype dotted_ab = TNumber" "in_loc dotted_ab = Query"
  "required dotted_ab = None" "isArray dotted_ab = None"
  "name nested_b = ''b''" "ptype nested_b = TString" "in_loc nested_b = Query"
  "required nested_b = Some True"
  "name object_a = ''a''" "ptype object_a = TObject" "in_loc object_a = Query"
  "required object_a = None" "properties object_a = Some [nested_b]"
  "name ids_field = ''ids''" "ptype ids_field = TNumber" "in_loc ids_field = Body"
  "required ids_field = None" "isArray ids_field = Some True" "elementsDivider ids_field = None"
  "name flag_field = ''flag''" "ptype flag_field = TBoolean" "in_loc flag_field = Query"
  "required flag_field = None" "isArray flag_field = None"
  "default_val flag_field = Some (Bool False)"
  "name body_zip = ''zip''" "ptype body_zip = TString" "in_loc body_zip = Body"
  "required body_zip = Some True"
  "isArray nested_b = None" "default_val nested_b = None" "properties nested_b = None"
  "default_val object_a = None" "isArray object_a = None"
  "default_val addr_field = None" "isArray addr_field = None"
  "name constructor_field = ''constructor''" "ptype constructor_field = TBoolean"
  "in_loc constructor_field = Query" "required constructor_field = None"
  "isArray constructor_field = None" "default_val constructor_field = Some (Bool False)"
  "name proto_field = ''__proto__''" "ptype proto_field = TBoolean"
  "in_loc proto_field = Body" "required proto_field = None"
  "isArray proto_field = None" "default_val proto_field = Some (Bool False)"
  "name boolean_ab = ''a.b''" "ptype boolean_ab = TBoolean" "in_loc boolean_ab = Query"
  "required boolean_ab = None" "isArray boolean_ab = None" "default_val boolean_ab = None"
  "name object_ab = ''a.b''" "ptype object_ab = TObject" "in_loc object_ab = Query"
  "required object_ab = None" "isArray object_ab = None" "default_val object_ab = None"
  "properties object_ab = Some [nested_b]"
  by (simp_all add: spec_p1_def spec_p2_def grandparent_g_def parent_p_def child_c_def
      flag_property_def addr_field_def dotted_ab_def nested_b_def object_a_def ids_field_def
      flag_field_def body_zip_def constructor_field_def proto_field_def boolean_ab_def
      object_ab_def)

lemma example_sanitizers:
  "definitions strict_sanitizer = [with_defaults spec_p1, with_defaults spec_p2]"
  "strict (options strict_sanitizer) = Some True"
  "definitions deep_sanitizer = [with_defaults grandparent_g]"
  "strict (options deep_sanitizer) = Some False"
  "definitions addr_sanitizer = [with_defaults addr_field]"
  "definitions dotted_sanitizer = [with_defaults dotted_ab, with_defaults object_a]"
  "strict (options dotted_sanitizer) = Some False"
  "definitions lenient_sanitizer = [with_defaults object_a]"
  "strict (options lenient_sanitizer) = Some False"
  "definitions ids_sanitizer = [with_defaults ids_field]"
  "strict (options ids_sanitizer) = Some False"
  "definitions flag_sanitizer = [with_defaults flag_field]"
  "strict (options flag_sanitizer) = Some False"
  "definitions constructor_sanitizer = [with_defaults constructor_field]"
  "strict (options constructor_sanitizer) = Some False"
  "definitions proto_sanitizer = [with_defaults proto_field]"
  "strict (options proto_sanitizer) = Some False"
  "definitions skipping_sanitizer = [with_defaults object_a, with_defaults boolean_ab]"
  "strict (options skipping_sanitizer) = Some False"
  "definitions guarded_sanitizer = [with_defaults object_a, with_defaults object_ab]"
  "strict (options guarded_sanitizer) = Some False"
  by (simp_all add: strict_sanitizer_def deep_sanitizer_def addr_sanitizer_def
      dotted_sanitizer_def lenient_sanitizer_def ids_sanitizer_def flag_sanitizer_def
      constructor_sanitizer_def proto_sanitizer_def skipping_sanitizer_def guarded_sanitizer_def
      new_sanitizer_sel)

lemma example_requests:
  "query strict_request = Obj [(''p1'', Str ''x''), (''p3'', Str ''y'')]"
  "params strict_request = Obj []" "body strict_request = Obj []"
  \<open>query deep_request = Obj [(''g'', Str ''{"p":"{}"}'')]\<close>
  "params deep_request = Obj []" "body deep_request = Obj []"
  "query addr_request = Obj []" "params addr_request = Obj []"
  "body addr_request = Obj [(''addr'', Obj [(''flag'', Str ''1'')])]"
  "query dotted_request = Obj [(''a.b'', Str ''x''), (''a'', Str ''{}'')]"
  "params dotted_request = Obj []" "body dotted_request = Obj []"
  "query lenient_request = Obj [(''a'', Str ''{}''), (''a.b'', Str ''y'')]"
  "params lenient_request = Obj []" "body lenient_request = Obj []"
  "query ids_request = Obj []" "params ids_request = Obj []"
  "body ids_request = Obj [(''ids'', array_of [Num (Finite 1), Num (Finite 2)])]"
  "query no_flag_request = Obj []" "params no_flag_request = Obj []"
  "body no_flag_request = Obj []"
  "query (flag_request s) = Obj [(''flag'', Str s)]" "params (flag_request s) = Obj []"
  "body (flag_request s) = Obj []"
  "query unparsable_request = Obj [(''a'', Str ''{'')]"
  "params unparsable_request = Obj []" "body unparsable_request = Obj []"
  "query (proto_request v) = Obj []" "params (proto_request v) = Obj []"
  "body (proto_request v) = Obj [(''__proto__'', v)]"
  "query skipping_request = Obj [(''a'', Str ''{}''), (''a.b'', Str ''maybe'')]"
  "params skipping_request = Obj []" "body skipping_request = Obj []"
  "query guarded_request = Obj [(''a'', Str ''{}''), (''a.b'', Str ''{'')]"
  "params guarded_request = Obj []" "body guarded_request = Obj []"
  by (simp_all add: strict_request_def deep_request_def addr_request_def dotted_request_def
      lenient_request_def ids_request_def no_flag_request_def flag_request_def
      unparsable_request_def proto_request_def skipping_request_def guarded_request_def)

lemmas check_eval =
  Let_def scope_def path_prefix_def mapping_of_def or_empty_def missing_pass_def
  required_names_def locations_def empty_entries_def check_key_def already_missing_def
  flag_unknown_def flag_malformed_def merge_lists_def result_of_def entries_def isNaN_def
  malformed_value_def split_of_def get_prop_def chain_prop_def prop_of_def
  canonical_booleans_def example_arrays
  with_defaults_sel example_fields example_sanitizers example_requests example_builtins_sel
  input_of_fake_req

lemma strict_check:
  "check example_builtins strict_sanitizer strict_request None = Inr strict_result"
  by (subst check_three_passes) (simp add: check_eval strict_result_def)

lemma level_c_check:
  "check example_builtins this (fake_req Query (Obj [])) (Some (''p'', [child_c]))
     = Inr level_c_result"
  by (subst check_three_passes) (simp add: check_eval level_c_result_def)

lemma level_p_check:
  "check example_builtins this (fake_req Query (Obj [(''p'', Str ''{}'')])) (Some (''g'', [parent_p]))
     = Inr \<lparr>status = False,
            unknown = entries [] [] [] @ entries [] [] [],
            missing = entries [] [] [] @ entries [''p.c''] [] [],
            malformed = entries [] [] [] @ entries [] [] []\<rparr>"
  by (subst check_three_passes) (simp add: check_eval level_c_check level_c_result_def)

lemma level_g_check:
  "check example_builtins deep_sanitizer deep_request None
     = Inr \<lparr>status = False,
            unknown = entries [] [] [] @ entries [] [] [] @ entries [] [] [],
            missing = entries [] [] [] @ entries [] [] [] @ entries [''p.c''] [] [],
            malformed = entries [] [] [] @ entries [] [] [] @ entries [] [] []\<rparr>"
  by (subst check_three_passes) (simp add: check_eval level_p_check)

lemma nested_b_check:
  "check example_builtins this (fake_req Query (Obj [])) (Some (''a'', [nested_b]))
     = Inr \<lparr>status = False, unknown = entries [] [] [], missing = entries [''a.b''] [] [],
            malformed = entries [] [] []\<rparr>"
  by (subst check_three_passes) (simp add: check_eval)

lemma dotted_check:
  "check example_builtins dotted_sanitizer dotted_request None = Inr dotted_result"
  by (subst check_three_passes) (simp add: check_eval nested_b_check dotted_result_def)

lemma lenient_check:
  "check example_builtins lenient_sanitizer lenient_request None = Inr lenient_result"
  by (subst check_three_passes) (simp add: check_eval nested_b_check lenient_result_def)

lemma ids_check:
  "check example_builtins ids_sanitizer ids_request None = Inl TypeError"
  by (subst check_three_passes) (simp add: check_eval)


lemmas values_eval =
  values_of_def values_step_def get_prop_def chain_prop_def store_value_def set_own_def
  assign_def empty_result_def canonical_true_def split_of_def
  parseValue_nullish parseValue_boolean parseValue_string default_of_def
  with_defaults_sel example_fields example_sanitizers example_requests example_builtins_sel
  example_keys example_arrays

lemma strict_values:
  "values_of example_builtins strict_sanitizer strict_request
     = Inr (\<lparr>vquery = Obj [(''p1'', Str ''x'')], vpath = Obj [], vbody = Obj []\<rparr>, strict_request)"
  by (simp add: values_eval strict_request_def)

lemma no_flag_values:
  "values_of example_builtins flag_sanitizer no_flag_request
     = Inr (\<lparr>vquery = Obj [(''flag'', Bool False)], vpath = Obj [], vbody = Obj []\<rparr>,
            no_flag_request)"
  by (simp add: values_eval no_flag_request_def)


lemma constructor_values:
  "values_of example_builtins constructor_sanitizer no_flag_request
     = Inr (\<lparr>vquery = Obj [(''constructor'', Bool False)], vpath = Obj [], vbody = Obj []\<rparr>,
            no_flag_request)"
  by (simp add: values_eval no_flag_request_def)

lemma proto_values:
  "values_of example_builtins proto_sanitizer (proto_request Null)
     = Inr (\<lparr>vquery = Obj [], vpath = Obj [], vbody = Obj []\<rparr>, proto_request Null)"
  "values_of example_builtins proto_sanitizer (proto_request (Str ''1''))
     = Inr (\<lparr>vquery = Obj [], vpath = Obj [], vbody = Obj []\<rparr>, proto_request (Str ''1''))"
  by (simp_all add: values_eval proto_request_def)

lemma addr_values:
  "values_of example_builtins addr_sanitizer addr_request
     = Inr (\<lparr>vquery = Obj [], vpath = Obj [],
             vbody = Obj [(''addr'', Obj [(''flag'', Bool True)])]\<rparr>,
            addr_request\<lparr>body := Obj [(''addr'', Obj [(''flag'', Bool True)])]\<rparr>)"
proof -
  have "parseValue example_builtins (Obj [(''flag'', Str ''1'')]) (with_defaults addr_field)
      = Inr (Obj [(''flag'', Bool True)], Obj [(''flag'', Bool True)])"
    by (subst parseValue.simps) (simp add: values_eval)
  then show ?thesis
    by (simp add: values_eval)
qed

lemma lenient_values:
  "values_of example_builtins lenient_sanitizer lenient_request
     = Inr (\<lparr>vquery = Obj [(''a'', Obj [(''b'', Undefined)])], vpath = Obj [], vbody = Obj []\<rparr>,
            lenient_request)"
proof -
  have "parseValue example_builtins (Str ''{}'') (with_defaults object_a)
      = Inr (Obj [(''b'', Undefined)], Str ''{}'')"
    by (subst parseValue.simps) (simp add: values_eval)
  then show ?thesis
    by (simp add: values_eval lenient_request_def)
qed

lemma ids_values:
  "values_of example_builtins ids_sanitizer ids_request = Inl TypeError"
proof -
  have "parseValue example_builtins (array_of [Num (Finite 1), Num (Finite 2)]) (with_defaults ids_field)
      = Inl TypeError"
    by (subst parseValue.simps) (simp add: values_eval)
  then show ?thesis
    by (simp add: values_eval)
qed

lemma unparsable_values:
  "values_of example_builtins lenient_sanitizer unparsable_request = Inl SyntaxError"
proof -
  have "parseValue example_builtins (Str ''{'') (with_defaults object_a) = Inl SyntaxError"
    by (subst parseValue.simps) (simp add: values_eval)
  then show ?thesis
    by (simp add: values_eval)
qed

lemma no_flag_check:
  "check example_builtins flag_sanitizer no_flag_request None
     = Inr \<lparr>status = True, unknown = entries [] [] [], missing = entries [] [] [],
            malformed = entries [] [] []\<rparr>"
  by (subst check_three_passes) (simp add: check_eval)

lemma absent_p1_check:
  "check example_builtins strict_sanitizer no_flag_request None
     = Inr \<lparr>status = False, unknown = entries [] [] [], missing = entries [''p1''] [] [],
            malformed = entries [] [] []\<rparr>"
  by (subst check_three_passes) (simp add: check_eval)



lemma guarded_check:
  "check example_builtins guarded_sanitizer guarded_request None
     = Inr \<lparr>status = False,
            unknown = entries [] [] [] @ entries [] [] [],
            missing = entries [] [] [] @ entries [''a.b''] [] [],
            malformed = entries [] [] [] @ entries [] [] []\<rparr>"
  by (subst check_three_passes) (simp add: check_eval nested_b_check)


lemma unparsable_check:
  "check example_builtins lenient_sanitizer unparsable_request None = Inl SyntaxError"
  by (subst check_three_passes) (simp add: check_eval)

lemma guarded_values:
  "values_of example_builtins guarded_sanitizer guarded_request = Inl SyntaxError"
proof -
  have "parseValue example_builtins (Str ''{}'') (with_defaults object_a)
      = Inr (Obj [(''b'', Undefined)], Str ''{}'')"
    by (subst parseValue.simps) (simp add: values_eval)
  moreover have "parseValue example_builtins (Str ''{'') (with_defaults object_ab) = Inl SyntaxError"
    by (subst parseValue.simps) (simp add: values_eval)
  ultimately show ?thesis
    by (simp add: values_eval guarded_request_def)
qed
section \<open>The claims\<close>

subsection \<open>C1: qualified names\<close>

text \<open>
  Claim C1: every entry of the three lists is the full dot-joined path from the schema
  root through all enclosing object fields, at every nesting depth. \<open>check\<close> builds a
  name as \<^verbatim>\<open>path + name\<close>, but its recursive call passes the bare key as the
  parent's name, so the prefix holds the immediate parent only. In the three-level
  example the absent field \<^verbatim>\<open>c\<close> of \<^verbatim>\<open>p\<close> of \<^verbatim>\<open>g\<close> is recorded as
  \<^verbatim>\<open>p.c\<close>, where the claim requires \<^verbatim>\<open>g.p.c\<close>.
\<close>

theorem nested_path_drops_outer_prefix:
  "check example_builtins deep_sanitizer deep_request None
     = Inr \<lparr>status = False,
            unknown = entries [] [] [] @ entries [] [] [] @ entries [] [] [],
            missing = entries [] [] [] @ entries [] [] [] @ entries [''p.c''] [] [],
            malformed = entries [] [] [] @ entries [] [] [] @ entries [] [] []\<rparr>"
  by (subst check_three_passes) (simp add: check_eval level_p_check)

subsection \<open>C2: the input mappings after the call\<close>

text \<open>
  Claim C2, amended: \<open>check\<close> never writes to the request (its model returns no
  request: the code only reads the mappings), and \<open>values\<close> leaves the three mappings
  as they were unless some object-typed definition with a non-empty \<open>properties\<close> list
  finds a raw value that is already structured (not a string, \<^verbatim>\<open>null\<close> or
  \<^verbatim>\<open>undefined\<close>); the nested properties of such a value are overwritten in place
  with their coerced values.
\<close>

theorem values_changes_only_structured_object_fields:
  assumes "values_of env this req = Inr (res, req')"
    and "\<forall>d \<in> set (definitions this).
          \<not> overwritten_in_place d (chain_prop env (input_of req (in_loc d)) (name d))"
  shows "req' = req"
  using assms unfolding values_of_def by (rule values_run_unchanged)

text \<open>The theorem at the example of the specification, whose fields are a string and a number.\<close>

theorem values_changes_only_structured_object_fields_witness:
  "values_of example_builtins strict_sanitizer strict_request
     = Inr (\<lparr>vquery = Obj [(''p1'', Str ''x'')], vpath = Obj [], vbody = Obj []\<rparr>, strict_request)
   \<and> \<not> overwritten_in_place (with_defaults spec_p1) (Str ''x'')
   \<and> \<not> overwritten_in_place (with_defaults spec_p2) Undefined"
proof -
  have none: "\<forall>d \<in> set (definitions strict_sanitizer).
      \<not> overwritten_in_place d
          (chain_prop example_builtins (input_of strict_request (in_loc d)) (name d))"
    by (simp add: overwritten_in_place_def example_sanitizers with_defaults_sel example_fields)
  from strict_values obtain req' where
    run: "values_of example_builtins strict_sanitizer strict_request
            = Inr (\<lparr>vquery = Obj [(''p1'', Str ''x'')], vpath = Obj [], vbody = Obj []\<rparr>, req')"
    by blast
  from values_changes_only_structured_object_fields[OF run none] run
  show ?thesis
    by (simp add: overwritten_in_place_def with_defaults_sel example_fields)
qed

text \<open>
  Counterexample to C2 as stated: the body \<^verbatim>\<open>{"addr": {"flag": "1"}}\<close> is
  \<^verbatim>\<open>{"addr": {"flag": true}}\<close> after \<open>values\<close>.
\<close>

theorem values_overwrites_structured_input:
  "values_of example_builtins addr_sanitizer addr_request
     = Inr (\<lparr>vquery = Obj [], vpath = Obj [],
             vbody = Obj [(''addr'', Obj [(''flag'', Bool True)])]\<rparr>,
            addr_request\<lparr>body := Obj [(''addr'', Obj [(''flag'', Bool True)])]\<rparr>)
   \<and> body addr_request = Obj [(''addr'', Obj [(''flag'', Str ''1'')])]
   \<and> addr_request\<lparr>body := Obj [(''addr'', Obj [(''flag'', Bool True)])]\<rparr> \<noteq> addr_request"
proof -
  have "body (addr_request\<lparr>body := Obj [(''addr'', Obj [(''flag'', Bool True)])]\<rparr>)
      \<noteq> body addr_request"
    by (simp add: example_requests)
  then have "addr_request\<lparr>body := Obj [(''addr'', Obj [(''flag'', Bool True)])]\<rparr> \<noteq> addr_request"
    by metis
  then show ?thesis
    using addr_values by (simp add: example_requests)
qed

subsection \<open>C3: the verdict\<close>

text \<open>
  Claim C3: whenever \<open>check\<close> returns, \<open>status\<close> is true if and only if every
  \<open>params\<close> list of the result is empty: the entries of missing, unknown and
  malformed for the three locations, with the entries merged from nested validations.
\<close>

theorem status_iff_all_lists_empty:
  assumes "check env this req parent = Inr r"
  shows "status r = (\<forall>e \<in> set (missing r @ unknown r @ malformed r). eparams e = [])"
proof -
  from assms obtain st where "r = result_of st"
    by (rule check_unfold)
  then show ?thesis
    by (cases st) (auto simp: result_of_def Let_def filter_empty_conv)
qed

text \<open>A result with \<open>status = False\<close> and one with \<open>status = True\<close>.\<close>

theorem status_iff_all_lists_empty_witness:
  "check example_builtins strict_sanitizer strict_request None = Inr strict_result
   \<and> status strict_result
       = (\<forall>e \<in> set (missing strict_result @ unknown strict_result @ malformed strict_result).
            eparams e = [])
   \<and> \<not> status strict_result
   \<and> (\<exists>r. check example_builtins flag_sanitizer no_flag_request None = Inr r
          \<and> status r
          \<and> status r = (\<forall>e \<in> set (missing r @ unknown r @ malformed r). eparams e = []))"
  using status_iff_all_lists_empty[OF strict_check] status_iff_all_lists_empty[OF no_flag_check]
    strict_check no_flag_check
  by (simp add: strict_result_def)

subsection \<open>C4: missing and malformed\<close>

text \<open>
  Claim C4, amended: in the result of every invocation of \<open>check\<close>, top-level or
  nested, the entries that the invocation records itself for a location (the first
  missing entry and the first malformed entry of that location) share no name: a field
  that the missing pass flagged is not flagged malformed. For the whole result of a
  top-level call, entries merged from nested validations included, no missing entry
  shares a name with a malformed entry of the same location when no top-level name
  contains a dot and the properties of every top-level object are not validated
  recursively themselves and lie in the location of their object. Without these
  conditions an entry merged from a nested validation can carry a qualified name that an
  entry of another field also carries.
\<close>

theorem own_missing_never_malformed:
  assumes "check env this req parent = Inr r"
  shows "set (eparams (own_entry (missing r) w)) \<inter> set (eparams (own_entry (malformed r) w)) = {}
       \<and> (parent = None \<and> (\<forall>d \<in> set (definitions this). dot_free (name d) \<and> flat_properties d)
            \<longrightarrow> (\<forall>m \<in> set (missing r). \<forall>f \<in> set (malformed r).
                   ewhere m = ewhere f \<longrightarrow> set (eparams m) \<inter> set (eparams f) = {}))"
proof (intro conjI impI ballI)
  show "set (eparams (own_entry (missing r) w)) \<inter> set (eparams (own_entry (malformed r) w)) = {}"
    using check_own_malformed[OF assms, of w] by (auto simp: check_own_missing[OF assms])
next
  fix m f
  assume "parent = None \<and> (\<forall>d \<in> set (definitions this). dot_free (name d) \<and> flat_properties d)"
    and "m \<in> set (missing r)" and "f \<in> set (malformed r)" and "ewhere m = ewhere f"
  with assms show "set (eparams m) \<inter> set (eparams f) = {}"
    by (intro missing_and_malformed_disjoint[of env this req r m f]) simp_all
qed

text \<open>
  The object \<^verbatim>\<open>a\<close> with the required property \<^verbatim>\<open>b\<close>, validated against the query
  string \<^verbatim>\<open>a={}&a.b=y\<close>: the missing entry merged from the nested validation holds
  \<^verbatim>\<open>a.b\<close>, and no malformed entry of the query does.
\<close>

theorem own_missing_never_malformed_witness:
  "check example_builtins lenient_sanitizer lenient_request None = Inr lenient_result
   \<and> definitions lenient_sanitizer = [with_defaults object_a]
   \<and> dot_free (name (with_defaults object_a)) \<and> flat_properties (with_defaults object_a)
   \<and> missing lenient_result ! 3 = \<lparr>ewhere = Query, eparams = [''a.b'']\<rparr>
   \<and> set (eparams (own_entry (missing lenient_result) Query))
       \<inter> set (eparams (own_entry (malformed lenient_result) Query)) = {}
   \<and> set (eparams (missing lenient_result ! 3)) \<inter> set (eparams (malformed lenient_result ! 0)) = {}
   \<and> set (eparams (missing lenient_result ! 3)) \<inter> set (eparams (malformed lenient_result ! 3)) = {}"
proof -
  have schema: "\<forall>d \<in> set (definitions lenient_sanitizer). dot_free (name d) \<and> flat_properties d"
    by (simp add: example_sanitizers with_defaults_sel example_fields dot_free_def
        flat_properties_def nests_def)
  have m: "missing lenient_result ! 3 \<in> set (missing lenient_result)"
    and f0: "malformed lenient_result ! 0 \<in> set (malformed lenient_result)"
    and f3: "malformed lenient_result ! 3 \<in> set (malformed lenient_result)"
    and w: "ewhere (missing lenient_result ! 3) = ewhere (malformed lenient_result ! 0)"
      "ewhere (missing lenient_result ! 3) = ewhere (malformed lenient_result ! 3)"
    by (simp_all add: lenient_result_def entries_def)
  note whole = own_missing_never_malformed[OF lenient_check, of Query, THEN conjunct2, rule_format,
      OF conjI, OF refl schema]
  from whole[OF m f0 w(1)] whole[OF m f3 w(2)]
    own_missing_never_malformed[OF lenient_check, of Query, THEN conjunct1] schema lenient_check
  show ?thesis
    by (simp add: example_sanitizers lenient_result_def entries_def)
qed

text \<open>
  Counterexample to C4 as stated: with the number field \<^verbatim>\<open>a.b\<close> and the object
  \<^verbatim>\<open>a\<close> whose required property \<^verbatim>\<open>b\<close> is absent, the query string
  \<^verbatim>\<open>a.b=x&a={}\<close> puts the name \<^verbatim>\<open>a.b\<close> into a malformed entry and into a missing
  entry of the query.
\<close>

theorem name_both_missing_and_malformed:
  "check example_builtins dotted_sanitizer dotted_request None = Inr dotted_result
   \<and> ewhere (missing dotted_result ! 3) = Query
   \<and> ''a.b'' \<in> set (eparams (missing dotted_result ! 3))
   \<and> ewhere (malformed dotted_result ! 0) = Query
   \<and> ''a.b'' \<in> set (eparams (malformed dotted_result ! 0))"
  using dotted_check by (simp add: dotted_result_def entries_def)

subsection \<open>C5: keys without a definition\<close>

text \<open>
  Claim C5, amended: for a key of a location's mapping that no definition in scope names
  for that location, \<open>check\<close> in strict mode appends the qualified key to the unknown
  entry of the location; not in strict mode it ignores the key, that is, its result (the
  three lists and the status) is the result for the mapping without the key. The name of
  an ignored key can still stand in a list as the qualified name of another field.
\<close>

theorem undeclared_key_unknown_or_ignored:
  assumes "input_of req w = Obj kvs"
    and "k \<in> set (map fst kvs)"
    and "find (\<lambda>d. name d = k) (filter (\<lambda>d. in_loc d = w) (scope this parent)) = None"
  shows "(strict (options this) = Some True \<longrightarrow>
            (\<forall>r. check env this req parent = Inr r \<longrightarrow>
               ewhere (own_entry (unknown r) w) = w
               \<and> path_prefix parent @ k \<in> set (eparams (own_entry (unknown r) w))))
       \<and> (strict (options this) \<noteq> Some True \<longrightarrow>
            check env this (with_input req w (Obj (filter (\<lambda>p. fst p \<noteq> k) kvs))) parent
              = check env this req parent)"
proof -
  have key: "k \<in> set (Object_keys (mapping_of req w))"
    using assms(1,2) by (simp add: mapping_of_def or_empty_def)
  have "ewhere (own_entry es w) = w" if "own_entries es" for es
    using that by (rule own_entries_cases) (cases w; simp add: own_entry_def)
  then show ?thesis
    using check_unknown_recorded[OF _ _ key assms(3)] check_own_entries(2)
      check_ignores_undeclared_key[OF _ assms(1,3)]
    by blast
qed

text \<open>
  In strict mode the key \<^verbatim>\<open>p3\<close> of the specification's example is recorded; not in
  strict mode the key \<^verbatim>\<open>a.b\<close> changes nothing.
\<close>

theorem undeclared_key_unknown_or_ignored_witness:
  "check example_builtins strict_sanitizer strict_request None = Inr strict_result
   \<and> ewhere (own_entry (unknown strict_result) Query) = Query
   \<and> ''p3'' \<in> set (eparams (own_entry (unknown strict_result) Query))
   \<and> check example_builtins lenient_sanitizer
         (with_input lenient_request Query (Obj [(''a'', Str ''{}'')])) None
       = check example_builtins lenient_sanitizer lenient_request None"
proof -
  have "ewhere (own_entry (unknown strict_result) Query) = Query
      \<and> ''p3'' \<in> set (eparams (own_entry (unknown strict_result) Query))"
    using undeclared_key_unknown_or_ignored[of strict_request Query
        "[(''p1'', Str ''x''), (''p3'', Str ''y'')]" "''p3''" strict_sanitizer None example_builtins]
      strict_check
    by (simp add: example_requests example_sanitizers example_fields with_defaults_sel
        scope_def path_prefix_def)
  moreover have "check example_builtins lenient_sanitizer
         (with_input lenient_request Query (Obj [(''a'', Str ''{}'')])) None
       = check example_builtins lenient_sanitizer lenient_request None"
    using undeclared_key_unknown_or_ignored[of lenient_request Query
        "[(''a'', Str ''{}''), (''a.b'', Str ''y'')]" "''a.b''" lenient_sanitizer None example_builtins]
    by (simp add: example_requests example_sanitizers example_fields with_defaults_sel scope_def)
  ultimately show ?thesis
    using strict_check by simp
qed

text \<open>
  Counterexample to C5 as stated: not in strict mode, the query key \<^verbatim>\<open>a.b\<close> has no
  definition, and its name stands in a missing entry of the query (as the qualified name
  of the absent property \<^verbatim>\<open>b\<close> of \<^verbatim>\<open>a\<close>).
\<close>

theorem ignored_key_name_still_listed:
  "check example_builtins lenient_sanitizer lenient_request None = Inr lenient_result
   \<and> strict (options lenient_sanitizer) = Some False
   \<and> ''a.b'' \<in> set (Object_keys (mapping_of lenient_request Query))
   \<and> find (\<lambda>d. name d = ''a.b'') (filter (\<lambda>d. in_loc d = Query) (definitions lenient_sanitizer))
       = None
   \<and> ewhere (missing lenient_result ! 3) = Query
   \<and> ''a.b'' \<in> set (eparams (missing lenient_result ! 3))"
  using lenient_check
  by (simp add: lenient_result_def entries_def mapping_of_def or_empty_def example_requests
      example_sanitizers example_fields with_defaults_sel)

subsection \<open>C6: required fields\<close>

text \<open>
  Claim C6: whenever \<open>check\<close> returns, every definition in scope that is required and
  whose name is not a key of the mapping of its location (an absent mapping counting as
  empty) has its qualified name, the invocation's prefix followed by the name, in the
  missing entry of that location.
\<close>

theorem required_absent_is_missing:
  assumes "check env this req parent = Inr r"
    and "d \<in> set (scope this parent)"
    and "required d = Some True"
    and "name d \<notin> set (Object_keys (mapping_of req (in_loc d)))"
  shows "ewhere (own_entry (missing r) (in_loc d)) = in_loc d
       \<and> path_prefix parent @ name d \<in> set (eparams (own_entry (missing r) (in_loc d)))"
  using assms(2-4) by (auto simp: check_own_missing[OF assms(1)] required_names_def)

text \<open>
  At the top level (\<^verbatim>\<open>p1\<close> is required and the query is empty) and in a nested
  validation (the property \<^verbatim>\<open>c\<close> of \<^verbatim>\<open>p\<close>).
\<close>

theorem required_absent_is_missing_witness:
  "(\<exists>r. check example_builtins strict_sanitizer no_flag_request None = Inr r
        \<and> ewhere (own_entry (missing r) Query) = Query
        \<and> ''p1'' \<in> set (eparams (own_entry (missing r) Query)))
   \<and> check example_builtins deep_sanitizer (fake_req Query (Obj [])) (Some (''p'', [child_c]))
       = Inr level_c_result
   \<and> ''p.c'' \<in> set (eparams (own_entry (missing level_c_result) Query))"
proof -
  have "ewhere (own_entry (missing r) Query) = Query
      \<and> ''p1'' \<in> set (eparams (own_entry (missing r) Query))"
    if "check example_builtins strict_sanitizer no_flag_request None = Inr r" for r
    using required_absent_is_missing[OF that, of "with_defaults spec_p1"]
    by (simp add: scope_def path_prefix_def mapping_of_def or_empty_def example_sanitizers
        with_defaults_sel example_fields example_requests)
  moreover have "''p.c'' \<in> set (eparams (own_entry (missing level_c_result) Query))"
    using required_absent_is_missing[OF level_c_check[of deep_sanitizer], of child_c]
    by (simp add: scope_def path_prefix_def mapping_of_fake_req or_empty_def example_fields)
  ultimately show ?thesis
    using absent_p1_check level_c_check[of deep_sanitizer] by blast
qed

subsection \<open>C7: defaults\<close>

text \<open>
  Claim C7, amended: for every top-level definition (names being unique within a
  location, as the data model of the specification says), \<open>values\<close> resolves a raw value
  that is \<^verbatim>\<open>null\<close> or \<^verbatim>\<open>undefined\<close> to the definition's default as it stands
  (\<^verbatim>\<open>null\<close> when the schema sets none). The raw value is what \<^verbatim>\<open>p[def.name]\<close>
  reads, a property of the mapping or of its prototype chain. A field whose name is not
  \<^verbatim>\<open>__proto__\<close> is a key of the output mapping, with the resolved value, if and only
  if the resolved value is not \<^verbatim>\<open>null\<close> or \<^verbatim>\<open>undefined\<close>; a field named
  \<^verbatim>\<open>__proto__\<close> is never a key of the output mapping.
\<close>

theorem absent_uses_default_and_nullish_is_omitted:
  assumes "values_of env (new_sanitizer data opts) req = Inr (res, req')"
    and "distinct (map field_key data)"
    and "d \<in> set data"
  shows "\<exists>v raw'.
           parseValue env (chain_prop env (input_of req (in_loc d)) (name d)) (with_defaults d)
             = Inr (v, raw')
         \<and> (nullish (chain_prop env (input_of req (in_loc d)) (name d)) \<longrightarrow>
              v = (case default_val d of None \<Rightarrow> Null | Some x \<Rightarrow> x))
         \<and> own_prop (output_of res (in_loc d)) (name d)
             = (if nullish v \<or> name d = ''__proto__'' then None else Some v)"
proof -
  let ?ds = "map with_defaults data"
  have run: "forEach (values_step env) ?ds (empty_result, req) = Inr (res, req')"
    using assms(1) by (simp add: values_of_def new_sanitizer_def)
  have dist: "distinct (map field_key ?ds)"
    using assms(2) by (simp add: comp_def field_key_with_defaults)
  have mem: "with_defaults d \<in> set ?ds"
    using assms(3) by simp
  have same: "in_loc (with_defaults d) = in_loc d" "name (with_defaults d) = name d"
    by (simp_all add: with_defaults_def)
  have empty: "own_prop (output_of empty_result w) k = None" for w k
    by (simp add: output_of_empty_result)
  from values_run[OF run dist plain_output_empty] mem obtain v raw' where
    pv: "parseValue env (chain_prop env (input_of req (in_loc d)) (name d)) (with_defaults d)
           = Inr (v, raw')"
    and out: "own_prop (output_of res (in_loc d)) (name d)
           = (if nullish v \<or> name d = ''__proto__'' then None else Some v)"
    unfolding same[symmetric] by (fastforce simp: empty)
  have "v = (case default_val d of None \<Rightarrow> Null | Some x \<Rightarrow> x)"
    if "nullish (chain_prop env (input_of req (in_loc d)) (name d))"
    using pv that by (simp add: parseValue_nullish default_of_def with_defaults_def)
  with pv out show ?thesis by blast
qed

text \<open>
  The boolean \<^verbatim>\<open>flag\<close> with default \<^verbatim>\<open>false\<close> and no raw value is in the output
  as \<^verbatim>\<open>false\<close>; the number \<^verbatim>\<open>p2\<close> with no raw value and no default is omitted.
\<close>

theorem absent_uses_default_and_nullish_is_omitted_witness:
  "(\<exists>res. values_of example_builtins flag_sanitizer no_flag_request = Inr (res, no_flag_request)
        \<and> own_prop (output_of res Query) ''flag'' = Some (Bool False))
   \<and> (\<exists>res. values_of example_builtins strict_sanitizer strict_request = Inr (res, strict_request)
        \<and> own_prop (output_of res Query) ''p2'' = None)"
proof -
  have a: "own_prop (output_of res Query) ''flag'' = Some (Bool False)"
    if run: "values_of example_builtins flag_sanitizer no_flag_request = Inr (res, no_flag_request)"
    for res
  proof -
    from absent_uses_default_and_nullish_is_omitted[OF run[unfolded flag_sanitizer_def], of flag_field]
    obtain v where "v = Bool False"
      and "own_prop (output_of res Query) ''flag'' = (if nullish v then None else Some v)"
      by (auto simp: field_key_def example_fields example_requests chain_prop_def
          example_builtins_sel)
    then show ?thesis by simp
  qed
  have b: "own_prop (output_of res Query) ''p2'' = None"
    if run: "values_of example_builtins strict_sanitizer strict_request = Inr (res, strict_request)"
    for res
  proof -
    from absent_uses_default_and_nullish_is_omitted[OF run[unfolded strict_sanitizer_def], of spec_p2]
    obtain v where "v = Null"
      and "own_prop (output_of res Query) ''p2'' = (if nullish v then None else Some v)"
      by (auto simp: field_key_def example_fields example_requests chain_prop_def
          example_builtins_sel)
    then show ?thesis by simp
  qed
  from a b no_flag_values strict_values show ?thesis by blast
qed

text \<open>
  Counterexample to C7 as stated: the field \<^verbatim>\<open>__proto__\<close> has the default
  \<^verbatim>\<open>false\<close>, and the body \<^verbatim>\<open>{"__proto__": null}\<close> gives it the raw value
  \<^verbatim>\<open>null\<close>. The resolved value is \<^verbatim>\<open>false\<close>, yet the output mapping of the body
  has no key: the assignment \<^verbatim>\<open>obj.body['__proto__'] = false\<close> reaches the setter of
  the prototype, which ignores a primitive.
\<close>

theorem proto_field_default_is_not_stored:
  "values_of example_builtins proto_sanitizer (proto_request Null)
     = Inr (\<lparr>vquery = Obj [], vpath = Obj [], vbody = Obj []\<rparr>, proto_request Null)
   \<and> definitions proto_sanitizer = [with_defaults proto_field]
   \<and> name (with_defaults proto_field) = ''__proto__''
   \<and> chain_prop example_builtins (input_of (proto_request Null) Body) ''__proto__'' = Null
   \<and> parseValue example_builtins Null (with_defaults proto_field) = Inr (Bool False, Null)
   \<and> Object_keys (Obj []) = []"
  using proto_values(1)
  by (simp add: example_sanitizers with_defaults_sel example_fields example_requests
      chain_prop_def parseValue_nullish default_of_def)
subsection \<open>C8: booleans\<close>



subsection \<open>C9: what aborts the computation\<close>

text \<open>
  Claim C9, amended. A run of \<open>check\<close> raises only while it examines the value of a
  declared key: when a conversion in the well-formedness test raises (the \<^verbatim>\<open>split\<close> of
  an array field whose value is not a string, or a conversion to a number or a date that
  the value makes raise), when the value of an object field with properties cannot be
  parsed, or when the nested validation of the parsed payload raises. The pass over the
  required fields and the flagging of undeclared keys raise nothing, and a value that
  fails its well-formedness rule is recorded without raising. Conversely, when \<open>check\<close>
  returns, no key that it examined raises: every declared key that is not reported
  missing for its location under its qualified name, hence every top-level key without a
  dot; so an unparsable value under such a key makes \<open>check\<close> raise.

  A run of \<open>values\<close> raises only at a field whose location has no mapping or at a
  field whose conversion \<open>parseValue\<close> raises; \<open>parseValue\<close> raises only on a value
  that is present: in the \<^verbatim>\<open>split\<close> of a value that is not a string, in a conversion
  to a number or a date, in the parse of a string for an object field, or in the loop
  over the properties of an object field (a read on \<^verbatim>\<open>null\<close> or \<^verbatim>\<open>undefined\<close>, a
  nested conversion, a write onto a primitive or of a length that an array refuses). When
  \<open>values\<close> returns, every string read for a top-level object field has been parsed;
  so an unparsable string there makes \<open>values\<close> raise.

  The outcome \<open>Inl Unmodelled\<close> is no exception; the theorem says where it arises: at a
  \<^verbatim>\<open>split\<close> method that a built-in object supplies to a value that is not a string,
  at a write onto a built-in object, and at a write under \<^verbatim>\<open>__proto__\<close> that gives an
  object another prototype.
\<close>

theorem domain_errors_collected_parse_failure_propagates:
  "(check env this req parent = Inl e \<longrightarrow>
      (\<exists>w k d. k \<in> set (Object_keys (mapping_of req w))
         \<and> find (\<lambda>d. name d = k) (filter (\<lambda>d. in_loc d = w) (scope this parent)) = Some d
         \<and> key_outcome env this k d (prop_of (mapping_of req w) k) = Some e))
   \<and> ((\<forall>w. \<forall>k \<in> set (Object_keys (mapping_of req w)). \<forall>d.
          find (\<lambda>d. name d = k) (filter (\<lambda>d. in_loc d = w) (scope this parent)) = Some d
          \<longrightarrow> key_outcome env this k d (prop_of (mapping_of req w) k) = None)
        \<longrightarrow> (\<exists>r. check env this req parent = Inr r))
   \<and> (malformed_value env d v = Inr bad \<and> (bad \<or> \<not> nests d)
        \<longrightarrow> key_outcome env this k d v = None)
   \<and> (malformed_value env d v = Inl e \<longrightarrow>
        ptype d = TNumber \<and> isArray d = Some True
          \<and> (split_of env v (elementsDivider d) = Inl e
             \<or> (\<exists>ts. split_of env v (elementsDivider d) = Inr ts \<and> all_numbers env ts = Inl e))
        \<or> ptype d = TNumber \<and> isArray d \<noteq> Some True \<and> ToNumber env v = Inl e
        \<or> ptype d = TDate \<and> Date_time env v = Inl e)
   \<and> (split_of env v dv = Inl e \<longrightarrow> (\<forall>s. v \<noteq> Str s)
        \<and> (e = TypeError
           \<or> e = Unmodelled \<and> \<not> nullish v \<and> (\<exists>f. chain_prop env v ''split'' = Intrinsic f)))
   \<and> (check env this req parent = Inr r
        \<and> k \<in> set (Object_keys (mapping_of req w))
        \<and> find (\<lambda>d. name d = k) (filter (\<lambda>d. in_loc d = w) (scope this parent)) = Some d
        \<and> (\<not> reported_missing r w (path_prefix parent @ k) \<or> parent = None \<and> dot_free k)
        \<longrightarrow> key_outcome env this k d (prop_of (mapping_of req w) k) = None)
   \<and> (k \<in> set (Object_keys (mapping_of req w))
        \<and> find (\<lambda>d. name d = k) (filter (\<lambda>d. in_loc d = w) (scope this None)) = Some d
        \<and> dot_free k
        \<and> key_outcome env this k d (prop_of (mapping_of req w) k) = Some e
        \<longrightarrow> (\<exists>e'. check env this req None = Inl e'))
   \<and> (values_of env this req = Inl e \<longrightarrow>
        (\<exists>ds d ds' obj rq. definitions this = ds @ d # ds'
           \<and> forEach (values_step env) ds (empty_result, req) = Inr (obj, rq)
           \<and> (nullish (input_of req (in_loc d)) \<and> e = TypeError
              \<or> parseValue env (chain_prop env (input_of rq (in_loc d)) (name d)) d = Inl e
              \<or> e = Unmodelled \<and> name d = ''__proto__''
                 \<and> (\<exists>x raw'. parseValue env (chain_prop env (input_of rq (in_loc d)) (name d)) d
                               = Inr (x, raw')
                      \<and> is_object x \<and> x \<noteq> inherited env KObject ''__proto__''))))
   \<and> (parseValue env v d = Inl e \<longrightarrow>
        \<not> nullish v
        \<and> (ptype d \<noteq> TObject \<and> ptype d \<noteq> TDate \<and> isArray d = Some True
             \<and> split_of env v (elementsDivider d) = Inl e
           \<or> ptype d = TNumber \<and> isArray d = Some True
             \<and> (\<exists>ts. split_of env v (elementsDivider d) = Inr ts \<and> numbers_of env ts = Inl e)
           \<or> ptype d = TNumber \<and> isArray d \<noteq> Some True \<and> ToNumber env v = Inl e
           \<or> ptype d = TDate \<and> Date_time env v = Inl e
           \<or> ptype d = TObject \<and> (\<exists>s. v = Str s) \<and> JSON_parse env v = Inl e
           \<or> ptype d = TObject
             \<and> (\<exists>ps ddef obj. properties d = Some ps \<and> ddef \<in> set ps
                  \<and> (get_prop env obj (name ddef) = Inl e
                     \<or> (\<exists>x. get_prop env obj (name ddef) = Inr x
                          \<and> (parseValue env x ddef = Inl e
                             \<or> (\<exists>y x'. parseValue env x ddef = Inr (y, x')
                                  \<and> set_prop env obj (name ddef) y = Inl e)))))))
   \<and> (set_prop env v k x = Inl e \<longrightarrow>
        \<not> is_object v \<and> e = TypeError
        \<or> (\<exists>n kvs. v = Arr n kvs \<and> k = ''length''
              \<and> (ToNumber env x = Inl e \<or> e = RangeError))
        \<or> e = Unmodelled
           \<and> ((\<exists>h. v = Intrinsic h)
              \<or> is_object v \<and> k = ''__proto__'' \<and> own_prop v k = None
                \<and> (is_object x \<or> x = Null) \<and> x \<noteq> inherited env (kind_of v) ''__proto__''))
   \<and> (values_of env this req = Inr (res, req') \<and> d \<in> set (definitions this)
        \<and> ptype d = TObject \<and> chain_prop env (input_of req (in_loc d)) (name d) = Str s
        \<longrightarrow> (\<exists>payload. JSON_parse env (Str s) = Inr payload))
   \<and> (d \<in> set (definitions this) \<and> ptype d = TObject
        \<and> chain_prop env (input_of req (in_loc d)) (name d) = Str s
        \<and> JSON_parse env (Str s) = Inl e
        \<longrightarrow> (\<exists>e'. values_of env this req = Inl e'))"
proof (intro conjI impI)
  assume "check env this req parent = Inl e"
  then show "\<exists>w k d. k \<in> set (Object_keys (mapping_of req w))
         \<and> find (\<lambda>d. name d = k) (filter (\<lambda>d. in_loc d = w) (scope this parent)) = Some d
         \<and> key_outcome env this k d (prop_of (mapping_of req w) k) = Some e"
    by (rule check_aborts)
next
  assume quiet: "\<forall>w. \<forall>k \<in> set (Object_keys (mapping_of req w)). \<forall>d.
          find (\<lambda>d. name d = k) (filter (\<lambda>d. in_loc d = w) (scope this parent)) = Some d
          \<longrightarrow> key_outcome env this k d (prop_of (mapping_of req w) k) = None"
  show "\<exists>r. check env this req parent = Inr r"
  proof (cases "check env this req parent")
    case (Inl e')
    from check_aborts[OF this] quiet show ?thesis by fastforce
  next
    case (Inr r)
    then show ?thesis by simp
  qed
next
  assume "malformed_value env d v = Inr bad \<and> (bad \<or> \<not> nests d)"
  then show "key_outcome env this k d v = None"
    by (auto simp: key_outcome_def nests_def malformed_value_def split: option.splits if_splits)
next
  assume "malformed_value env d v = Inl e"
  then show "ptype d = TNumber \<and> isArray d = Some True
          \<and> (split_of env v (elementsDivider d) = Inl e
             \<or> (\<exists>ts. split_of env v (elementsDivider d) = Inr ts \<and> all_numbers env ts = Inl e))
        \<or> ptype d = TNumber \<and> isArray d \<noteq> Some True \<and> ToNumber env v = Inl e
        \<or> ptype d = TDate \<and> Date_time env v = Inl e"
    by (rule malformed_value_aborts)
next
  assume "split_of env v dv = Inl e"
  then have "(\<forall>s. v \<noteq> Str s)
        \<and> (e = TypeError
           \<or> e = Unmodelled \<and> \<not> nullish v \<and> (\<exists>f. chain_prop env v ''split'' = Intrinsic f))"
    by (rule split_of_aborts)
  then show "\<forall>s. v \<noteq> Str s"
    and "e = TypeError
       \<or> e = Unmodelled \<and> \<not> nullish v \<and> (\<exists>f. chain_prop env v ''split'' = Intrinsic f)"
    by simp_all
next
  assume h: "check env this req parent = Inr r
        \<and> k \<in> set (Object_keys (mapping_of req w))
        \<and> find (\<lambda>d. name d = k) (filter (\<lambda>d. in_loc d = w) (scope this parent)) = Some d
        \<and> (\<not> reported_missing r w (path_prefix parent @ k) \<or> parent = None \<and> dot_free k)"
  then have "\<not> reported_missing r w (path_prefix parent @ k)"
    using top_level_key_not_missing[of env this req r k w] by auto
  with h show "key_outcome env this k d (prop_of (mapping_of req w) k) = None"
    by (auto intro: check_validated(1))
next
  assume h: "k \<in> set (Object_keys (mapping_of req w))
        \<and> find (\<lambda>d. name d = k) (filter (\<lambda>d. in_loc d = w) (scope this None)) = Some d
        \<and> dot_free k
        \<and> key_outcome env this k d (prop_of (mapping_of req w) k) = Some e"
  show "\<exists>e'. check env this req None = Inl e'"
  proof (cases "check env this req None")
    case (Inl e')
    then show ?thesis by simp
  next
    case (Inr r)
    from h have key: "k \<in> set (Object_keys (mapping_of req w))" and dot: "dot_free k"
      and found: "find (\<lambda>d. name d = k) (filter (\<lambda>d. in_loc d = w) (scope this None)) = Some d"
      by simp_all
    have "\<not> reported_missing r w (path_prefix None @ k)"
      using Inr key dot by (rule top_level_key_not_missing)
    with Inr key found have "key_outcome env this k d (prop_of (mapping_of req w) k) = None"
      by (rule check_validated(1))
    with h show ?thesis by simp
  qed
next
  assume "values_of env this req = Inl e"
  then show "\<exists>ds d ds' obj rq. definitions this = ds @ d # ds'
           \<and> forEach (values_step env) ds (empty_result, req) = Inr (obj, rq)
           \<and> (nullish (input_of req (in_loc d)) \<and> e = TypeError
              \<or> parseValue env (chain_prop env (input_of rq (in_loc d)) (name d)) d = Inl e
              \<or> e = Unmodelled \<and> name d = ''__proto__''
                 \<and> (\<exists>x raw'. parseValue env (chain_prop env (input_of rq (in_loc d)) (name d)) d
                               = Inr (x, raw')
                      \<and> is_object x \<and> x \<noteq> inherited env KObject ''__proto__''))"
    by (rule values_aborts)
next
  assume pv: "parseValue env v d = Inl e"
  from parseValue_aborts[OF pv] show "\<not> nullish v"
    by simp
  from parseValue_aborts[OF pv]
  show "ptype d \<noteq> TObject \<and> ptype d \<noteq> TDate \<and> isArray d = Some True
             \<and> split_of env v (elementsDivider d) = Inl e
           \<or> ptype d = TNumber \<and> isArray d = Some True
             \<and> (\<exists>ts. split_of env v (elementsDivider d) = Inr ts \<and> numbers_of env ts = Inl e)
           \<or> ptype d = TNumber \<and> isArray d \<noteq> Some True \<and> ToNumber env v = Inl e
           \<or> ptype d = TDate \<and> Date_time env v = Inl e
           \<or> ptype d = TObject \<and> (\<exists>s. v = Str s) \<and> JSON_parse env v = Inl e
           \<or> ptype d = TObject
             \<and> (\<exists>ps ddef obj. properties d = Some ps \<and> ddef \<in> set ps
                  \<and> (get_prop env obj (name ddef) = Inl e
                     \<or> (\<exists>x. get_prop env obj (name ddef) = Inr x
                          \<and> (parseValue env x ddef = Inl e
                             \<or> (\<exists>y x'. parseValue env x ddef = Inr (y, x')
                                  \<and> set_prop env obj (name ddef) y = Inl e)))))"
    by (rule conjunct2)
next
  assume "set_prop env v k x = Inl e"
  then show "\<not> is_object v \<and> e = TypeError
        \<or> (\<exists>n kvs. v = Arr n kvs \<and> k = ''length''
              \<and> (ToNumber env x = Inl e \<or> e = RangeError))
        \<or> e = Unmodelled
           \<and> ((\<exists>h. v = Intrinsic h)
              \<or> is_object v \<and> k = ''__proto__'' \<and> own_prop v k = None
                \<and> (is_object x \<or> x = Null) \<and> x \<noteq> inherited env (kind_of v) ''__proto__'')"
    by (rule set_prop_aborts)
next
  assume "values_of env this req = Inr (res, req') \<and> d \<in> set (definitions this)
        \<and> ptype d = TObject \<and> chain_prop env (input_of req (in_loc d)) (name d) = Str s"
  then show "\<exists>payload. JSON_parse env (Str s) = Inr payload"
    by (auto intro: values_parsed)
next
  assume h: "d \<in> set (definitions this) \<and> ptype d = TObject
        \<and> chain_prop env (input_of req (in_loc d)) (name d) = Str s
        \<and> JSON_parse env (Str s) = Inl e"
  show "\<exists>e'. values_of env this req = Inl e'"
  proof (cases "values_of env this req")
    case (Inl e')
    then show ?thesis by simp
  next
    case (Inr p)
    then obtain res req' where run: "values_of env this req = Inr (res, req')"
      by (cases p) simp
    from h have "d \<in> set (definitions this)" and "ptype d = TObject"
      and "chain_prop env (input_of req (in_loc d)) (name d) = Str s"
      by simp_all
    with run have "\<exists>payload. JSON_parse env (Str s) = Inr payload"
      by (rule values_parsed)
    with h show ?thesis by simp
  qed
qed

text \<open>
  The unparsable value \<^verbatim>\<open>{\<close> of the object field \<^verbatim>\<open>a\<close> makes both operations raise
  the parse error; the strict example, whose result records the undeclared key
  \<^verbatim>\<open>p3\<close>, and the value \<^verbatim>\<open>"maybe"\<close> of the boolean \<^verbatim>\<open>flag\<close> raise nothing; a run of
  \<open>values\<close> that returns has parsed the string \<^verbatim>\<open>{}\<close> of the object field.
\<close>

theorem domain_errors_collected_parse_failure_propagates_witness:
  "check example_builtins lenient_sanitizer unparsable_request None = Inl SyntaxError
   \<and> (\<exists>w k d. k \<in> set (Object_keys (mapping_of unparsable_request w))
        \<and> find (\<lambda>d. name d = k) (filter (\<lambda>d. in_loc d = w) (scope lenient_sanitizer None)) = Some d
        \<and> key_outcome example_builtins lenient_sanitizer k d
             (prop_of (mapping_of unparsable_request w) k) = Some SyntaxError)
   \<and> key_outcome example_builtins lenient_sanitizer ''a'' (with_defaults object_a) (Str ''{'')
       = Some SyntaxError
   \<and> values_of example_builtins lenient_sanitizer unparsable_request = Inl SyntaxError
   \<and> check example_builtins strict_sanitizer strict_request None = Inr strict_result
   \<and> key_outcome example_builtins strict_sanitizer ''p1'' (with_defaults spec_p1) (Str ''x'') = None
   \<and> malformed_value example_builtins (with_defaults flag_field) (Str ''maybe'') = Inr True
   \<and> key_outcome example_builtins flag_sanitizer ''flag'' (with_defaults flag_field) (Str ''maybe'')
       = None
   \<and> values_of example_builtins lenient_sanitizer lenient_request
       = Inr (\<lparr>vquery = Obj [(''a'', Obj [(''b'', Undefined)])], vpath = Obj [], vbody = Obj []\<rparr>,
              lenient_request)
   \<and> (\<exists>payload. JSON_parse example_builtins (Str ''{}'') = Inr payload)"
proof -
  note unparsable = domain_errors_collected_parse_failure_propagates
    [where env = example_builtins and this = lenient_sanitizer and req = unparsable_request
       and parent = None and e = SyntaxError and k = "''a''" and w = Query
       and d = "with_defaults object_a" and s = "''{''" and v = "Str ''{''" and bad = False]
  note strict = domain_errors_collected_parse_failure_propagates
    [where env = example_builtins and this = strict_sanitizer and req = strict_request
       and parent = None and r = strict_result and k = "''p1''" and w = Query
       and d = "with_defaults spec_p1"]
  note maybe = domain_errors_collected_parse_failure_propagates
    [where env = example_builtins and this = flag_sanitizer and k = "''flag''"
       and d = "with_defaults flag_field" and v = "Str ''maybe''" and bad = True]
  note lenient = domain_errors_collected_parse_failure_propagates
    [where env = example_builtins and this = lenient_sanitizer and req = lenient_request
       and res = "\<lparr>vquery = Obj [(''a'', Obj [(''b'', Undefined)])], vpath = Obj [], vbody = Obj []\<rparr>"
       and req' = lenient_request and d = "with_defaults object_a" and s = "''{}''"]
  have cause: "\<exists>w k d. k \<in> set (Object_keys (mapping_of unparsable_request w))
        \<and> find (\<lambda>d. name d = k) (filter (\<lambda>d. in_loc d = w) (scope lenient_sanitizer None)) = Some d
        \<and> key_outcome example_builtins lenient_sanitizer k d
             (prop_of (mapping_of unparsable_request w) k) = Some SyntaxError"
    using unparsable[THEN conjunct1] unparsable_check by simp
  have outcome: "key_outcome example_builtins lenient_sanitizer ''a'' (with_defaults object_a)
       (Str ''{'') = Some SyntaxError"
    by (simp add: key_outcome_def check_eval)
  have p1: "key_outcome example_builtins strict_sanitizer ''p1'' (with_defaults spec_p1) (Str ''x'')
       = None"
    using strict[THEN conjunct2, THEN conjunct2, THEN conjunct2, THEN conjunct2, THEN conjunct2,
        THEN conjunct1]
      strict_check
    by (simp add: scope_def dot_free_def mapping_of_def or_empty_def prop_of_def
        example_sanitizers example_requests with_defaults_sel example_fields)
  have bad: "malformed_value example_builtins (with_defaults flag_field) (Str ''maybe'') = Inr True"
    by (simp add: check_eval)
  have flag: "key_outcome example_builtins flag_sanitizer ''flag'' (with_defaults flag_field)
       (Str ''maybe'') = None"
    using maybe[THEN conjunct2, THEN conjunct2, THEN conjunct1] bad by simp
  have parsed: "\<exists>payload. JSON_parse example_builtins (Str ''{}'') = Inr payload"
    using lenient[THEN conjunct2, THEN conjunct2, THEN conjunct2, THEN conjunct2, THEN conjunct2,
        THEN conjunct2, THEN conjunct2, THEN conjunct2, THEN conjunct2, THEN conjunct2,
        THEN conjunct1]
      lenient_values
    by (simp add: chain_prop_def example_sanitizers example_requests with_defaults_sel
        example_fields)
  from cause outcome p1 bad flag parsed show ?thesis
    using unparsable_check unparsable_values strict_check lenient_values by simp
qed

text \<open>
  Counterexample to C9 as stated. The schema with one field, an array of numbers, has no
  object; the JSON body \<^verbatim>\<open>{"ids": [1, 2]}\<close> gives the field an array, on which
  \<^verbatim>\<open>.split\<close> is not a function, and both operations abort with a \<^verbatim>\<open>TypeError\<close>.
  And for the query \<^verbatim>\<open>a={}&a.b={\<close> the object field \<^verbatim>\<open>a.b\<close>, which has properties,
  holds a string that cannot be parsed, yet \<open>check\<close> returns: the nested validation of
  \<^verbatim>\<open>a\<close> has reported \<^verbatim>\<open>a.b\<close> missing, so line 95 skips the key.
\<close>

theorem non_string_array_value_aborts:
  "check example_builtins ids_sanitizer ids_request None = Inl TypeError
   \<and> values_of example_builtins ids_sanitizer ids_request = Inl TypeError
   \<and> definitions ids_sanitizer = [with_defaults ids_field]
   \<and> ptype (with_defaults ids_field) = TNumber
   \<and> check example_builtins guarded_sanitizer guarded_request None
       = Inr \<lparr>status = False,
              unknown = entries [] [] [] @ entries [] [] [],
              missing = entries [] [] [] @ entries [''a.b''] [] [],
              malformed = entries [] [] [] @ entries [] [] []\<rparr>
   \<and> find (\<lambda>d. name d = ''a.b'') (filter (\<lambda>d. in_loc d = Query) (definitions guarded_sanitizer))
       = Some (with_defaults object_ab)
   \<and> nests (with_defaults object_ab)
   \<and> prop_of (mapping_of guarded_request Query) ''a.b'' = Str ''{''
   \<and> JSON_parse example_builtins (Str ''{'') = Inl SyntaxError"
  using ids_check ids_values guarded_check
  by (simp add: example_sanitizers with_defaults_sel example_fields example_requests
      example_builtins_sel nests_def mapping_of_def or_empty_def prop_of_def)
subsection \<open>C10: nested definitions of another location\<close>




end
